theory Spec2Isabelle
  imports Main "HOL-Library.Char_ord"
begin

section \<open>Text and character classes\<close>

text \<open>
  The scanner is a browser content script. Its text values are JavaScript strings; they
  are modelled as \<^typ>\<open>string\<close>, one \<^typ>\<open>char\<close> per code unit, which covers the code
  units up to U+00FF. Every character class the script uses except white space lies in
  the ASCII range, so a code unit outside it is never a member of those classes.
\<close>

definition inRange :: "char \<Rightarrow> char \<Rightarrow> char \<Rightarrow> bool" where
  "inRange lo hi c = (lo \<le> c \<and> c \<le> hi)"

text \<open>The character class \<^verbatim>\<open>[1-9A-HJ-NP-Za-km-z]\<close> of every address pattern.\<close>

definition isBase58 :: "char \<Rightarrow> bool" where
  "isBase58 c =
     (inRange CHR ''1'' CHR ''9'' c \<or> inRange CHR ''A'' CHR ''H'' c \<or>
      inRange CHR ''J'' CHR ''N'' c \<or> inRange CHR ''P'' CHR ''Z'' c \<or>
      inRange CHR ''a'' CHR ''k'' c \<or> inRange CHR ''m'' CHR ''z'' c)"

text \<open>The canonical alphabet written out, as the specification lists it.\<close>

definition alphabet58 :: string where
  "alphabet58 = ''123456789ABCDEFGHJKLMNPQRSTUVWXYZabcdefghijkmnopqrstuvwxyz''"

text \<open>
  \<^verbatim>\<open>/^[1-9A-HJ-NP-Za-km-z]+$/.test(s)\<close>: without the \<^verbatim>\<open>m\<close> flag the anchors are the two
  ends of the input, so the test holds when \<open>s\<close> is one non-empty run of the class.
\<close>

definition testBase58Plus :: "string \<Rightarrow> bool" where
  "testBase58Plus s = (s \<noteq> [] \<and> list_all isBase58 s)"

text \<open>The classes \<^verbatim>\<open>\d\<close>, \<^verbatim>\<open>\w\<close> and \<^verbatim>\<open>\s\<close>; the last is also what \<^verbatim>\<open>trim()\<close> strips.\<close>

definition isDigit :: "char \<Rightarrow> bool" where
  "isDigit c = inRange CHR ''0'' CHR ''9'' c"

definition isWordChar :: "char \<Rightarrow> bool" where
  "isWordChar c =
     (inRange CHR ''A'' CHR ''Z'' c \<or> inRange CHR ''a'' CHR ''z'' c \<or> isDigit c \<or> c = CHR ''_'')"

definition isSpace :: "char \<Rightarrow> bool" where
  "isSpace c = (c \<in> {CHR 0x09, CHR 0x0A, CHR 0x0B, CHR 0x0C, CHR 0x0D, CHR '' '', CHR 0xA0})"

text \<open>The class of \<^verbatim>\<open>.\<close>: anything but a line terminator.\<close>

definition notLineTerminator :: "char \<Rightarrow> bool" where
  "notLineTerminator c = (c \<noteq> CHR 0x0A \<and> c \<noteq> CHR 0x0D)"

subsection \<open>String methods\<close>

definition startsWith :: "string \<Rightarrow> string \<Rightarrow> bool" where
  "startsWith w s = (take (length w) s = w)"

definition endsWith :: "string \<Rightarrow> string \<Rightarrow> bool" where
  "endsWith w s = (length w \<le> length s \<and> drop (length s - length w) s = w)"

fun includesText :: "string \<Rightarrow> string \<Rightarrow> bool" where
  "includesText w [] = (w = [])"
| "includesText w (c # cs) = (startsWith w (c # cs) \<or> includesText w cs)"

definition trim :: "string \<Rightarrow> string" where
  "trim s = rev (dropWhile isSpace (rev (dropWhile isSpace s)))"

text \<open>\<^verbatim>\<open>s.split(sep)\<close> for a separator of one character, and \<^verbatim>\<open>xs.join(sep)\<close>.\<close>

fun split :: "char \<Rightarrow> string \<Rightarrow> string list" where
  "split sep [] = [[]]"
| "split sep (c # cs) =
     (if c = sep then [] # split sep cs
      else (case split sep cs of [] \<Rightarrow> [[c]] | l # ls \<Rightarrow> (c # l) # ls))"

fun join :: "string \<Rightarrow> string list \<Rightarrow> string" where
  "join sep [] = []"
| "join sep [x] = x"
| "join sep (x # xs) = x @ sep @ join sep xs"

subsection \<open>Regular expressions\<close>

text \<open>
  A pattern is tried at the head of a text and answers with the text left after the
  match. The items below are the ones the script's patterns are built from. A greedy
  repetition is taken at its longest: in every pattern of the script the item that
  follows a repetition matches none of the characters the repetition can take (a digit run
  is followed by a colon or by white space and a letter, a base58 run by a word boundary
  or by nothing), so no shorter repetition can rescue a failed attempt and the engine's
  backtracking never finds another match.
\<close>

type_synonym pattern = "string \<Rightarrow> string option"

definition lit :: "string \<Rightarrow> pattern" where
  "lit w s = (if startsWith w s then Some (drop (length w) s) else None)"

definition optional :: "string \<Rightarrow> pattern" where
  "optional w s = (if startsWith w s then Some (drop (length w) s) else Some s)"

definition one :: "(char \<Rightarrow> bool) \<Rightarrow> pattern" where
  "one cls s = (case s of [] \<Rightarrow> None | c # cs \<Rightarrow> if cls c then Some cs else None)"

definition many :: "(char \<Rightarrow> bool) \<Rightarrow> pattern" where
  "many cls s = Some (dropWhile cls s)"

definition many1 :: "(char \<Rightarrow> bool) \<Rightarrow> pattern" where
  "many1 cls s = (case s of [] \<Rightarrow> None | c # cs \<Rightarrow> if cls c then Some (dropWhile cls cs) else None)"

text \<open>\<^verbatim>\<open>[cls]{lo,hi}\<close>.\<close>

definition between :: "nat \<Rightarrow> nat \<Rightarrow> (char \<Rightarrow> bool) \<Rightarrow> pattern" where
  "between lo hi cls s =
     (let k = min hi (length (takeWhile cls s)) in if lo \<le> k then Some (drop k s) else None)"

text \<open>\<^verbatim>\<open>[cls]{lo,}\<close>.\<close>

definition atLeast :: "nat \<Rightarrow> (char \<Rightarrow> bool) \<Rightarrow> pattern" where
  "atLeast lo cls s =
     (let k = length (takeWhile cls s) in if lo \<le> k then Some (drop k s) else None)"

text \<open>
  \<^verbatim>\<open>\b\<close>: the character before and the character after differ in being word
  characters; \<open>afterWord\<close> says whether the character before is one.
\<close>

definition boundary :: "bool \<Rightarrow> pattern" where
  "boundary afterWord s = (if afterWord \<noteq> (s \<noteq> [] \<and> isWordChar (hd s)) then Some s else None)"

fun sequence :: "pattern list \<Rightarrow> pattern" where
  "sequence [] s = Some s"
| "sequence (p # ps) s = (case p s of None \<Rightarrow> None | Some rest \<Rightarrow> sequence ps rest)"

text \<open>
  \<^verbatim>\<open>s.match(re)\<close> with the \<^verbatim>\<open>g\<close> flag, and the \<^verbatim>\<open>exec\<close> loop: the matches from left to
  right, each search resuming where the last match ended. The pattern is told whether
  the position follows a word character.
\<close>

fun matchAll :: "(bool \<Rightarrow> pattern) \<Rightarrow> bool \<Rightarrow> string \<Rightarrow> string list" where
  "matchAll re afterWord [] = []"
| "matchAll re afterWord (c # cs) =
     (case re afterWord (c # cs) of
        None \<Rightarrow> matchAll re (isWordChar c) cs
      | Some rest \<Rightarrow>
          if length rest < length (c # cs)
          then (let matched = take (length (c # cs) - length rest) (c # cs)
                in matched # matchAll re (isWordChar (last matched)) rest)
          else matchAll re (isWordChar c) cs)"

text \<open>\<^verbatim>\<open>re.test(s)\<close>, and the truth value of \<^verbatim>\<open>s.match(re)\<close>.\<close>

definition test :: "(bool \<Rightarrow> pattern) \<Rightarrow> string \<Rightarrow> bool" where
  "test re s = (matchAll re False s \<noteq> [])"

text \<open>\<^verbatim>\<open>s.match(re)\<close> without the \<^verbatim>\<open>g\<close> flag: the first match, or \<^verbatim>\<open>null\<close>.\<close>

definition firstMatch :: "(bool \<Rightarrow> pattern) \<Rightarrow> string \<Rightarrow> string option" where
  "firstMatch re s = (case matchAll re False s of [] \<Rightarrow> None | m # ms \<Rightarrow> Some m)"

text \<open>\<^verbatim>\<open>s.replace(re, '')\<close> with the \<^verbatim>\<open>g\<close> flag, for a pattern without \<^verbatim>\<open>\b\<close>.\<close>

fun removeAll :: "pattern \<Rightarrow> string \<Rightarrow> string" where
  "removeAll re [] = []"
| "removeAll re (c # cs) =
     (case re (c # cs) of
        None \<Rightarrow> c # removeAll re cs
      | Some rest \<Rightarrow>
          if length rest < length (c # cs) then removeAll re rest else c # removeAll re cs)"

text \<open>\<^verbatim>\<open>s.replace(re, '')\<close> without the \<^verbatim>\<open>g\<close> flag: only the first match goes.\<close>

fun removeFirst :: "pattern \<Rightarrow> string \<Rightarrow> string" where
  "removeFirst re [] = []"
| "removeFirst re (c # cs) =
     (case re (c # cs) of None \<Rightarrow> c # removeFirst re cs | Some rest \<Rightarrow> rest)"

text \<open>The patterns of the script.\<close>

definition solanaAddressRegex :: "bool \<Rightarrow> pattern" where
  "solanaAddressRegex afterWord =
     sequence [boundary afterWord, between 32 44 isBase58, boundary True]"

text \<open>\<^verbatim>\<open>/^[1-9A-HJ-NP-Za-km-z]{32,44}$/.test(s)\<close>.\<close>

definition testAddressShape :: "string \<Rightarrow> bool" where
  "testAddressShape s = (32 \<le> length s \<and> length s \<le> 44 \<and> list_all isBase58 s)"

definition isAorP :: "char \<Rightarrow> bool" where
  "isAorP c = (c = CHR ''A'' \<or> c = CHR ''P'')"

text \<open>\<^verbatim>\<open>\d+:\d+\s*[AP]M\<close>, the clock time shared by three of the timestamp patterns.\<close>

definition clockTime :: "pattern list" where
  "clockTime = [many1 isDigit, lit '':'', many1 isDigit, many isSpace, one isAorP, lit ''M'']"

definition cleanMessageText :: "string \<Rightarrow> string" where
  "cleanMessageText s =
     trim
       (removeAll (sequence (lit ''['' # clockTime @ [lit '']'']))
         (removeAll (sequence [lit ''Yesterday at '', many1 isDigit, lit '':'', many1 isDigit])
           (removeAll (sequence clockTime)
             (removeAll (sequence (lit ''Today at '' # clockTime)) s))))"

definition doubleQuote :: char where
  "doubleQuote = CHR 0x22"

definition sanitizeAddress :: "string \<Rightarrow> string option" where
  "sanitizeAddress address =
     (let cleanedAddress =
        trim
          (removeAll (sequence [lit ''Verifying'', one notLineTerminator, one notLineTerminator,
                                one notLineTerminator])
            (removeAll (sequence [lit (''style='' @ [doubleQuote]), many (\<lambda>c. c \<noteq> doubleQuote),
                                  lit [doubleQuote]])
              (removeAll (sequence [lit (''data-address='' @ [doubleQuote]),
                                    many (\<lambda>c. c \<noteq> doubleQuote), lit [doubleQuote]])
                (removeAll (sequence [lit ''<'', many (\<lambda>c. c \<noteq> CHR ''>''), lit ''>''])
                  address))))
      in firstMatch (\<lambda>afterWord. between 32 44 isBase58) cleanedAddress)"

section \<open>Verification coordinator\<close>

record verification =
  verified :: bool
  name :: "string option"
  symbol :: "string option"
  platform :: "string option"
  reason :: "string option"

text \<open>The object literal \<^verbatim>\<open>{ verified: false, reason: r }\<close>.\<close>

definition unverified :: "string \<Rightarrow> verification" where
  "unverified r = \<lparr>verified = False, name = None, symbol = None, platform = None, reason = Some r\<rparr>"

text \<open>
  The three provider adapters (\<^verbatim>\<open>verifyJupiterToken\<close>, \<^verbatim>\<open>verifyBirdeyeToken\<close>,
  \<^verbatim>\<open>verifyRegistryToken\<close>) each issue one network request. What the network does is
  outside the script: a call settles with a result after some milliseconds, throws after
  some milliseconds, or never settles.
\<close>

datatype provider = VerifyJupiterToken | VerifyBirdeyeToken | VerifyRegistryToken

datatype behaviour = Returns nat verification | Throws nat | Hangs

type_synonym network = "provider \<Rightarrow> string \<Rightarrow> behaviour"

text \<open>A settled promise, with the time in milliseconds at which it settled.\<close>

datatype settled = Fulfilled nat verification | Rejected nat

text \<open>
  \<^verbatim>\<open>verifyWithTimeout(verifyFn, address, timeout)\<close>: the timer is armed before the
  provider is called and rejects the promise when it fires; a provider that settles
  first clears the timer, and the promise is fulfilled only with a result whose
  \<^verbatim>\<open>verified\<close> is true. A promise settles once, so whatever arrives after the timer is
  dropped. A provider settling in the very millisecond of the timer loses to the timer,
  which was queued first.
\<close>

definition verifyWithTimeout :: "behaviour \<Rightarrow> nat \<Rightarrow> settled" where
  "verifyWithTimeout b timeout =
     (case b of
        Returns t r \<Rightarrow>
          if t < timeout then (if verified r then Fulfilled t r else Rejected t)
          else Rejected timeout
      | Throws t \<Rightarrow> if t < timeout then Rejected t else Rejected timeout
      | Hangs \<Rightarrow> Rejected timeout)"

text \<open>
  \<^verbatim>\<open>Promise.any\<close>: fulfilled by the member that is fulfilled first, rejected (with an
  aggregate error) once every member is rejected. Members fulfilled in the same
  millisecond are taken in array order.
\<close>

fun firstOf :: "settled \<Rightarrow> settled \<Rightarrow> settled" where
  "firstOf (Fulfilled t r) (Fulfilled t' r') = (if t' < t then Fulfilled t' r' else Fulfilled t r)"
| "firstOf (Fulfilled t r) (Rejected t') = Fulfilled t r"
| "firstOf (Rejected t) (Fulfilled t' r') = Fulfilled t' r'"
| "firstOf (Rejected t) (Rejected t') = Rejected (max t t')"

fun promiseAny :: "settled list \<Rightarrow> settled" where
  "promiseAny [] = Rejected 0"
| "promiseAny [p] = p"
| "promiseAny (p # ps) = firstOf p (promiseAny ps)"

text \<open>
  What a verification run leaves behind: the result it returns, the time at which it
  returns, and the provider requests it issued.
\<close>

record outcome =
  result :: verification
  finishedAt :: nat
  requests :: "(provider \<times> string) list"

definition verifyTokenWithMultipleAPIs :: "network \<Rightarrow> string \<Rightarrow> outcome" where
  "verifyTokenWithMultipleAPIs net address =
     (let verificationMethods =
            [verifyWithTimeout (net VerifyJupiterToken address) 8000,
             verifyWithTimeout (net VerifyBirdeyeToken address) 8000,
             verifyWithTimeout (net VerifyRegistryToken address) 5000];
          issued = [(VerifyJupiterToken, address), (VerifyBirdeyeToken, address),
                    (VerifyRegistryToken, address)]
      in case promiseAny verificationMethods of
           Fulfilled t r \<Rightarrow> \<lparr>result = r, finishedAt = t, requests = issued\<rparr>
         | Rejected t \<Rightarrow>
             \<lparr>result = unverified ''Failed verification with all APIs'', finishedAt = t,
              requests = issued\<rparr>)"

definition fullTokenVerification :: "network \<Rightarrow> string \<Rightarrow> outcome" where
  "fullTokenVerification net address =
     (if address = [] \<or> length address < 32 \<or> length address > 44
      then \<lparr>result = unverified ''Invalid address format'', finishedAt = 0, requests = []\<rparr>
      else if \<not> testBase58Plus address
      then \<lparr>result = unverified ''Invalid address characters'', finishedAt = 0, requests = []\<rparr>
      else verifyTokenWithMultipleAPIs net address)"

text \<open>The timeout each provider is raced under, read off the call sites.\<close>

fun deadline :: "provider \<Rightarrow> nat" where
  "deadline VerifyJupiterToken = 8000"
| "deadline VerifyBirdeyeToken = 8000"
| "deadline VerifyRegistryToken = 5000"

text \<open>A provider confirms when it returns a verified result before its timer fires.\<close>

definition confirms :: "network \<Rightarrow> string \<Rightarrow> provider \<Rightarrow> bool" where
  "confirms net address p =
     (case net p address of Returns t r \<Rightarrow> verified r \<and> t < deadline p | _ \<Rightarrow> False)"

text \<open>The three promises of the race, by provider.\<close>

definition raced :: "network \<Rightarrow> string \<Rightarrow> settled list" where
  "raced net a = map (\<lambda>p. verifyWithTimeout (net p a) (deadline p))
     [VerifyJupiterToken, VerifyBirdeyeToken, VerifyRegistryToken]"

text \<open>
  The specification's valid-address predicate: between 32 and 44 characters, each of the
  canonical alphabet.
\<close>

definition wellFormed :: "string \<Rightarrow> bool" where
  "wellFormed s = (32 \<le> length s \<and> length s \<le> 44 \<and> (\<forall>c \<in> set s. c \<in> set alphabet58))"

text \<open>Sample networks and addresses for the worked examples.\<close>

definition nobodyAnswers :: network where
  "nobodyAnswers p a = Hangs"

definition everyoneDeclines :: network where
  "everyoneDeclines p a = Returns 100 (unverified ''Not found'')"

definition registryToken :: verification where
  "registryToken = \<lparr>verified = True, name = Some ''Wrapped SOL'', symbol = Some ''SOL'',
     platform = Some ''Jupiter Registry'', reason = None\<rparr>"

definition onlyRegistryAnswers :: network where
  "onlyRegistryAnswers p a =
     (if p = VerifyRegistryToken then Returns 1000 registryToken else Hangs)"

definition sampleAddress :: string where
  "sampleAddress = ''4k3Dyjzvzp8eMZWUXbBCjEvwSkkk59S5iCNLY3QrkX6R''"

section \<open>Sliding window\<close>

record element =
  node :: nat
  ancestorId :: "string option"

record message =
  "text" :: string
  element :: element
  timestamp :: nat

definition MAX_WINDOW_SIZE :: nat where
  "MAX_WINDOW_SIZE = 10"

text \<open>\<^verbatim>\<open>messageWindow.unshift(entry)\<close>, then one \<^verbatim>\<open>pop()\<close> when the window is over size.\<close>

definition pushWindow :: "message \<Rightarrow> message list \<Rightarrow> message list" where
  "pushWindow entry window =
     (let window' = entry # window
      in if length window' > MAX_WINDOW_SIZE then butlast window' else window')"



section \<open>Scanner state\<close>

text \<open>
  The module-level variables of the content script, together with logs of what the
  script does to the outside: the \<^verbatim>\<open>pasteToBloomTab\<close> messages sent to the background
  script (\<open>forwarded\<close>), the calls of \<^verbatim>\<open>processAddress\<close> (\<open>processed\<close>), the provider
  requests (\<open>fetched\<close>) and the chat-completion requests (\<open>asked\<close>); and the background
  sequential checks that were started and now wait for a result (\<open>pending\<close>). Page
  decoration, the debug overlay and the address history in extension storage are left out.
\<close>

record processCall =
  argAddress :: string
  argMessageText :: string
  argElement :: element
  argIsFromAI :: bool

record chatRequest =
  chatModel :: string
  systemPrompt :: string
  userContent :: string

text \<open>
  How far a call of \<^verbatim>\<open>processAddress\<close> gets before it first waits: it returns \<^verbatim>\<open>null\<close>
  at once, or a stored result at once, or it has sent the provider requests for the
  cleaned address and waits for the verification.
\<close>

datatype started = NoAddress | KnownResult verification | Verifying string

text \<open>
  A sequential check that has reached its first \<^verbatim>\<open>await\<close>: what it waits for (the return
  of \<^verbatim>\<open>processAddress\<close>, or the answer to the chat request it sent as the \<open>n\<close>-th of the
  script), the combinations it has not tried yet, and the two texts joined by a space.
\<close>

datatype awaited = AddressResult started | ChatAnswer nat chatRequest

record suspendedCheck =
  waitingFor :: awaited
  untried :: "(string \<times> string) list"
  pairText :: string

record scanner =
  foundAddresses :: "string set"
  verificationResults :: "string \<rightharpoonup> verification"
  bloomSentAddresses :: "string set"
  processedMessageIds :: "string set"
  messageWindow :: "message list"
  RECENT_MESSAGES_BUFFER :: "message list"
  aiPrompt :: string
  autoSendToBloom :: bool
  forwarded :: "string list"
  processed :: "processCall list"
  fetched :: "(provider \<times> string) list"
  asked :: "chatRequest list"
  pending :: "suspendedCheck list"

text \<open>
  What lies outside the script: the verification providers, and the chat-completion
  service, which answers the \<open>n\<close>-th request the script makes with the content of its
  first choice, or with nothing usable.
\<close>

record world =
  providers :: network
  assistant :: "nat \<Rightarrow> chatRequest \<Rightarrow> string option"

definition initialPrompt :: string where
  "initialPrompt =
     ''You are a specialized AI that identifies Solana token addresses in text. '' @
     ''Solana addresses are base58 encoded strings (32-44 characters) containing only '' @
     ''characters from 1-9, A-H, J-N, P-Z, a-k, m-z. '' @
     ''IMPORTANT PATTERNS: '' @
     ''1. Many addresses end with 'pump', 'MSNJn', 'MSNJnpump', or similar suffixes. '' @
     ''2. Addresses are often split very unevenly. '' @
     ''3. Sometimes only a small part like 'pump' is on a separate line. '' @
     ''4. Addresses often appear after 'CA:'. '' @
     ''Respond with ONLY the complete reconstructed addresses, one per line, nothing else.''"

text \<open>The state when the script has loaded.\<close>

definition initial :: "bool \<Rightarrow> scanner" where
  "initial autoSend =
     \<lparr>foundAddresses = {}, verificationResults = Map.empty, bloomSentAddresses = {},
      processedMessageIds = {}, messageWindow = [], RECENT_MESSAGES_BUFFER = [],
      aiPrompt = initialPrompt, autoSendToBloom = autoSend, forwarded = [], processed = [],
      fetched = [], asked = [], pending = []\<rparr>"

section \<open>Dispatch\<close>

text \<open>What a JavaScript call hands back: \<^verbatim>\<open>undefined\<close>, or a boolean.\<close>

datatype returned = Undefined | Boolean bool

text \<open>
  \<^verbatim>\<open>sendToBloomBot(address)\<close>: both exits are a plain \<^verbatim>\<open>return\<close>. The message to the
  background script is sent after the address has been added to the set.
\<close>

definition sendToBloomBot :: "string \<Rightarrow> scanner \<Rightarrow> returned \<times> scanner" where
  "sendToBloomBot address s =
     (if address \<in> bloomSentAddresses s then (Undefined, s)
      else (Undefined,
            s\<lparr>bloomSentAddresses := insert address (bloomSentAddresses s),
              forwarded := forwarded s @ [address]\<rparr>))"

text \<open>
  \<^verbatim>\<open>processAddress\<close>, run from its call to its return. The result is \<^verbatim>\<open>null\<close> when
  sanitization finds no address.
\<close>

definition processAddress ::
  "network \<Rightarrow> string \<Rightarrow> string \<Rightarrow> element \<Rightarrow> bool \<Rightarrow> scanner \<Rightarrow> verification option \<times> scanner" where
  "processAddress net address messageText messageElement fromAI s =
     (let s0 = s\<lparr>processed := processed s @
                  [\<lparr>argAddress = address, argMessageText = messageText,
                    argElement = messageElement, argIsFromAI = fromAI\<rparr>]\<rparr>
      in case sanitizeAddress address of
           None \<Rightarrow> (None, s0)
         | Some cleanAddress \<Rightarrow>
             (case (if cleanAddress \<in> foundAddresses s0 then verificationResults s0 cleanAddress
                    else None) of
                Some existingVerification \<Rightarrow> (Some existingVerification, s0)
              | None \<Rightarrow>
                  (let s1 = s0\<lparr>foundAddresses := insert cleanAddress (foundAddresses s0)\<rparr>;
                       out = fullTokenVerification net cleanAddress;
                       info = result out;
                       s2 = s1\<lparr>fetched := fetched s1 @ requests out,
                               verificationResults := (verificationResults s1)(cleanAddress \<mapsto> info)\<rparr>;
                       s3 = (if autoSendToBloom s2 then snd (sendToBloomBot cleanAddress s2) else s2)
                   in (Some info, s3))))"

text \<open>
  The same function in two halves: from its call to the point where it awaits the
  verification, and from the arrival of the verification to its return. The provider
  requests leave in the first half; the result is stored and the address forwarded in the
  second.
\<close>

definition beginProcessAddress ::
  "network \<Rightarrow> string \<Rightarrow> string \<Rightarrow> element \<Rightarrow> bool \<Rightarrow> scanner \<Rightarrow> started \<times> scanner" where
  "beginProcessAddress net address messageText messageElement fromAI s =
     (let s0 = s\<lparr>processed := processed s @
                  [\<lparr>argAddress = address, argMessageText = messageText,
                    argElement = messageElement, argIsFromAI = fromAI\<rparr>]\<rparr>
      in case sanitizeAddress address of
           None \<Rightarrow> (NoAddress, s0)
         | Some cleanAddress \<Rightarrow>
             (case (if cleanAddress \<in> foundAddresses s0 then verificationResults s0 cleanAddress
                    else None) of
                Some existingVerification \<Rightarrow> (KnownResult existingVerification, s0)
              | None \<Rightarrow>
                  (Verifying cleanAddress,
                   s0\<lparr>foundAddresses := insert cleanAddress (foundAddresses s0),
                      fetched := fetched s0 @ requests (fullTokenVerification net cleanAddress)\<rparr>)))"

definition finishProcessAddress :: "network \<Rightarrow> string \<Rightarrow> scanner \<Rightarrow> verification \<times> scanner" where
  "finishProcessAddress net cleanAddress s =
     (let info = result (fullTokenVerification net cleanAddress);
          s2 = s\<lparr>verificationResults := (verificationResults s)(cleanAddress \<mapsto> info)\<rparr>;
          s3 = (if autoSendToBloom s2 then snd (sendToBloomBot cleanAddress s2) else s2)
      in (info, s3))"

section \<open>Detection pipeline\<close>

text \<open>
  The script is asynchronous: a call of an \<^verbatim>\<open>async\<close> function runs at once up to its
  first \<^verbatim>\<open>await\<close>, and other tasks may run before it resumes. The sequential check is
  called by \<^verbatim>\<open>addToMessageBuffer\<close> without being awaited, so it is given in two parts:
  what it does inside the insertion, up to its first \<^verbatim>\<open>await\<close>, and the rest, which runs
  later as a task of its own. Every other function is one task run from its call to its
  return, with each awaited result delivered in turn and no other task in between.
\<close>

subsection \<open>Requests to the chat-completion service\<close>

definition keepAddressLines :: "string \<Rightarrow> string list" where
  "keepAddressLines content =
     filter (\<lambda>addr. 32 \<le> length addr \<and> length addr \<le> 44 \<and> testBase58Plus addr)
       (split CHR 0x0A (trim content))"

definition detectSplitAddressesWithAI ::
  "world \<Rightarrow> string \<Rightarrow> string \<Rightarrow> string \<Rightarrow> scanner \<Rightarrow> string list \<times> scanner" where
  "detectSplitAddressesWithAI W txt prompt model s =
     (if length txt < 20 then ([], s)
      else
        (let request = \<lparr>chatModel = model, systemPrompt = prompt,
               userContent = ''Analyze this text for potential split Solana addresses: '' @
                 [doubleQuote] @ txt @ [doubleQuote]\<rparr>;
             s' = s\<lparr>asked := asked s @ [request]\<rparr>
         in case assistant W (length (asked s)) request of
              None \<Rightarrow> ([], s')
            | Some content \<Rightarrow> (keepAddressLines content, s')))"

subsection \<open>Sequential pairs in the time buffer\<close>

definition MAX_BUFFER_SIZE :: nat where
  "MAX_BUFFER_SIZE = 20"

definition BUFFER_TIME_WINDOW_MS :: nat where
  "BUFFER_TIME_WINDOW_MS = 10000"

text \<open>
  The combinations \<^verbatim>\<open>checkSequentialMessages\<close> forms from two texts, in the order it
  tries them, each with the message text it passes along.
\<close>

definition pairCombinations :: "string \<Rightarrow> string \<Rightarrow> (string \<times> string) list" where
  "pairCombinations fragment1 fragment2 =
     (if testAddressShape (fragment1 @ fragment2)
      then [(fragment1 @ fragment2, fragment1 @ '' + '' @ fragment2)] else []) @
     (if fragment2 @ fragment1 \<noteq> fragment1 @ fragment2 \<and> testAddressShape (fragment2 @ fragment1)
      then [(fragment2 @ fragment1, fragment2 @ '' + '' @ fragment1)] else [])"

definition sequentialCombinations :: "string \<Rightarrow> string \<Rightarrow> (string \<times> string) list" where
  "sequentialCombinations message1 message2 =
     (let fragments1 = matchAll (\<lambda>afterWord. atLeast 5 isBase58) False message1;
          fragments2 = matchAll (\<lambda>afterWord. atLeast 5 isBase58) False message2
      in concat [pairCombinations fragment1 fragment2.
                 fragment1 \<leftarrow> fragments1, fragment2 \<leftarrow> fragments2])"

text \<open>Each candidate not yet among the found addresses goes to \<^verbatim>\<open>processAddress\<close>.\<close>

fun processNew :: "network \<Rightarrow> element \<Rightarrow> (string \<times> string) list \<Rightarrow> scanner \<Rightarrow> scanner" where
  "processNew net el [] s = s"
| "processNew net el ((address, messageText) # rest) s =
     processNew net el rest
       (if address \<in> foundAddresses s then s
        else snd (processAddress net address messageText el True s))"

definition twoMessagePrompt :: string where
  "twoMessagePrompt =
     ''Identify Solana token addresses that might be split across these TWO CONSECUTIVE MESSAGES. '' @
     ''Look for strings that could be parts of a Solana address (32-44 characters using only 1-9, A-H, J-N, P-Z, a-k, m-z). '' @
     ''Try combining fragments from both messages. '' @
     ''EXAMPLES: If message 1 has '4TMGdUxhLX8XG6' and message 2 has 'CfdZBAgrfTUpump', '' @
     ''combine them to make '4TMGdUxhLX8XG6CfdZBAgrfTUpump'. '' @
     ''Or if message 1 has '4SHEZCr1desjeP1' and message 2 has '4TMGdUxhLX8XG6', '' @
     ''combine them to make '4SHEZCr1desjeP14TMGdUxhLX8XG6'. '' @
     ''Respond with ONLY the complete addresses, one per line.''"

text \<open>
  The combinations are tried in order, and one already among the found addresses is
  passed over without waiting. The first one that is not is handed to
  \<^verbatim>\<open>processAddress\<close>, whose return the check then awaits.
\<close>

fun beginNew ::
  "network \<Rightarrow> element \<Rightarrow> (string \<times> string) list \<Rightarrow> scanner \<Rightarrow>
     (started \<times> (string \<times> string) list) option \<times> scanner" where
  "beginNew net el [] s = (None, s)"
| "beginNew net el ((address, messageText) # rest) s =
     (if address \<in> foundAddresses s then beginNew net el rest s
      else (let (reached, s') = beginProcessAddress net address messageText el True s
            in (Some (reached, rest), s')))"

text \<open>
  \<^verbatim>\<open>checkSequentialMessages()\<close>, from its call to its first \<^verbatim>\<open>await\<close>. When no
  combination is new, the two texts joined by a space go to the service; a joined text
  shorter than 20 characters is not sent, and then nothing is left to do.
\<close>

definition checkSequentialMessages :: "world \<Rightarrow> scanner \<Rightarrow> scanner" where
  "checkSequentialMessages W s =
     (let buffer = RECENT_MESSAGES_BUFFER s
      in if length buffer < 2 then s
         else
           (let message1 = text (buffer ! (length buffer - 2));
                message2 = text (buffer ! (length buffer - 1));
                el = element (buffer ! (length buffer - 1));
                combined = message1 @ '' '' @ message2
            in case beginNew (providers W) el (sequentialCombinations message1 message2) s of
                 (Some (reached, rest), s1) \<Rightarrow>
                   s1\<lparr>pending := pending s1 @
                      [\<lparr>waitingFor = AddressResult reached, untried = rest, pairText = combined\<rparr>]\<rparr>
               | (None, s1) \<Rightarrow>
                   if length combined < 20 then s1
                   else
                     (let request = \<lparr>chatModel = ''gpt-4'', systemPrompt = twoMessagePrompt,
                            userContent = ''Analyze this text for potential split Solana addresses: '' @
                              [doubleQuote] @ combined @ [doubleQuote]\<rparr>
                      in s1\<lparr>asked := asked s1 @ [request],
                            pending := pending s1 @
                              [\<lparr>waitingFor = ChatAnswer (length (asked s1)) request, untried = [],
                                pairText = combined\<rparr>]\<rparr>)))"

text \<open>
  \<^verbatim>\<open>addToMessageBuffer(text, element)\<close>. The two clock readings of one call, for the
  entry's timestamp and for the clean-up, are taken as the same instant \<open>now\<close>.
\<close>

definition addToMessageBuffer :: "world \<Rightarrow> nat \<Rightarrow> string \<Rightarrow> element \<Rightarrow> scanner \<Rightarrow> scanner" where
  "addToMessageBuffer W now txt el s =
     (let pushed = RECENT_MESSAGES_BUFFER s @ [\<lparr>text = txt, element = el, timestamp = now\<rparr>];
          bounded = (if length pushed > MAX_BUFFER_SIZE then tl pushed else pushed);
          recent = dropWhile (\<lambda>m. now - timestamp m > BUFFER_TIME_WINDOW_MS) bounded;
          s' = s\<lparr>RECENT_MESSAGES_BUFFER := recent\<rparr>
      in if length recent \<ge> 2 then checkSequentialMessages W s' else s')"

text \<open>
  The rest of a sequential check, run once what it waits for has arrived: the awaited
  call of \<^verbatim>\<open>processAddress\<close> is completed, the untried combinations follow, then the
  two texts go to the service and its answers are processed. Each call passes the
  element of the entry that is newest in the buffer by then; reading it from an empty
  buffer throws, which ends the check.
\<close>

definition newestElement :: "scanner \<Rightarrow> element option" where
  "newestElement s =
     (case RECENT_MESSAGES_BUFFER s of [] \<Rightarrow> None | m # ms \<Rightarrow> Some (element (last (m # ms))))"

fun resumeNew ::
  "network \<Rightarrow> element option \<Rightarrow> (string \<times> string) list \<Rightarrow> scanner \<Rightarrow> scanner" where
  "resumeNew net el [] s = s"
| "resumeNew net el ((address, messageText) # rest) s =
     (if address \<in> foundAddresses s then resumeNew net el rest s
      else (case el of
              None \<Rightarrow> s
            | Some e \<Rightarrow> resumeNew net el rest (snd (processAddress net address messageText e True s))))"

definition resumeSequentialCheck :: "world \<Rightarrow> suspendedCheck \<Rightarrow> scanner \<Rightarrow> scanner" where
  "resumeSequentialCheck W task s =
     (case waitingFor task of
        ChatAnswer n request \<Rightarrow>
          (case assistant W n request of
             None \<Rightarrow> s
           | Some content \<Rightarrow>
               resumeNew (providers W) (newestElement s)
                 (map (\<lambda>address. (address, pairText task)) (keepAddressLines content)) s)
      | AddressResult reached \<Rightarrow>
          (let s1 = (case reached of
                       Verifying cleanAddress \<Rightarrow> snd (finishProcessAddress (providers W) cleanAddress s)
                     | _ \<Rightarrow> s);
               s2 = resumeNew (providers W) (newestElement s1) (untried task) s1;
               (aiAddresses, s3) =
                 detectSplitAddressesWithAI W (pairText task) twoMessagePrompt ''gpt-4'' s2
           in resumeNew (providers W) (newestElement s3)
                (map (\<lambda>address. (address, pairText task)) aiAddresses) s3))"

subsection \<open>The sliding window scan\<close>

definition multiMessagePrompt :: string where
  "multiMessagePrompt =
     ''You are a specialized AI that finds Solana addresses split across MULTIPLE MESSAGES. '' @
     ''Look carefully for address fragments that appear in different messages, even if they don't seem related. '' @
     ''Each message is separated by '----------'. '' @
     ''IMPORTANT: Solana addresses are 32-44 characters long using characters from 1-9, A-H, J-N, P-Z, a-k, m-z. '' @
     ''Many end with 'pump' suffix. '' @
     ''Try ALL POSSIBLE combinations of text fragments across messages. '' @
     ''Respond with ONLY the complete reconstructed addresses, one per line, nothing else.''"

text \<open>
  The second half of \<^verbatim>\<open>checkMessageWindowForAddresses\<close>: the texts of the whole window,
  joined, go to the service.
\<close>

definition windowText :: "scanner \<Rightarrow> string" where
  "windowText s = join ([CHR 0x0A] @ ''----------'' @ [CHR 0x0A]) (map text (messageWindow s))"

definition windowRequest :: "scanner \<Rightarrow> chatRequest" where
  "windowRequest s =
     \<lparr>chatModel = ''gpt-3.5-turbo'', systemPrompt = multiMessagePrompt,
      userContent = ''Analyze these messages for split Solana addresses:'' @
        [CHR 0x0A, CHR 0x0A] @ windowText s\<rparr>"

definition scanWindowWithAI :: "world \<Rightarrow> scanner \<Rightarrow> scanner" where
  "scanWindowWithAI W s =
     (let combinedText = windowText s;
          s' = s\<lparr>asked := asked s @ [windowRequest s]\<rparr>
      in case assistant W (length (asked s)) (windowRequest s) of
           None \<Rightarrow> s'
         | Some content \<Rightarrow>
             processNew (providers W) (element (messageWindow s ! 0))
               (map (\<lambda>address. (address, combinedText)) (keepAddressLines content)) s')"

definition checkMessageWindowForAddresses :: "world \<Rightarrow> scanner \<Rightarrow> scanner" where
  "checkMessageWindowForAddresses W s =
     (if length (messageWindow s) < 2 then s
      else
        (let currentMsg = text (messageWindow s ! 0);
             previousMsg = text (messageWindow s ! 1);
             combined = previousMsg @ currentMsg
         in if length previousMsg < 20 \<and> length currentMsg < 40 \<and>
               32 \<le> length combined \<and> length combined \<le> 44 \<and> testAddressShape combined
            then (if combined \<notin> foundAddresses s
                  then snd (processAddress (providers W) combined
                         (previousMsg @ '' + '' @ currentMsg) (element (messageWindow s ! 0)) True s)
                  else s)
            else scanWindowWithAI W s))"

subsection \<open>Parts of an address within one message\<close>

datatype partType = ca_prefix | pump_suffix | msnjn_suffix | fragment

record part =
  partText :: string
  partKind :: partType
  isPumpEnding :: bool

definition findPotentialAddressParts :: "string \<Rightarrow> part list" where
  "findPotentialAddressParts txt =
     (let caMatches = matchAll (\<lambda>afterWord. sequence [lit ''CA'', optional '':'', many isSpace,
                                                    between 3 44 isBase58]) False txt;
          caParts = map (\<lambda>matched.
              (let addressPart = removeFirst (sequence [lit ''CA'', optional '':'', many isSpace]) matched
               in \<lparr>partText = addressPart, partKind = ca_prefix,
                   isPumpEnding = endsWith ''pump'' addressPart\<rparr>)) caMatches;
          pumpParts =
            (if test (\<lambda>afterWord. sequence [boundary afterWord, lit ''pump'', boundary True]) txt
             then [\<lparr>partText = ''pump'', partKind = pump_suffix, isPumpEnding = True\<rparr>] else []);
          msnjnParts =
            (case firstMatch (\<lambda>afterWord. sequence [boundary afterWord, lit ''MSNJn'',
                                                   optional ''pump'', boundary True]) txt of
               None \<Rightarrow> []
             | Some matched \<Rightarrow>
                 [\<lparr>partText = matched, partKind = msnjn_suffix, isPumpEnding = True\<rparr>]);
          fragmentParts = map (\<lambda>matched.
              \<lparr>partText = matched, partKind = fragment, isPumpEnding = endsWith ''pump'' matched\<rparr>)
            (matchAll (\<lambda>afterWord. sequence [boundary afterWord, between 10 44 isBase58,
                                             boundary True]) False txt)
      in caParts @ pumpParts @ msnjnParts @ fragmentParts)"

text \<open>The two filters over the parts, and the concatenation rule of the inner loop.\<close>

definition fragmentsOf :: "part list \<Rightarrow> part list" where
  "fragmentsOf addressParts = filter (\<lambda>p. partKind p = fragment \<and> \<not> isPumpEnding p) addressParts"

definition suffixesOf :: "part list \<Rightarrow> part list" where
  "suffixesOf addressParts =
     filter (\<lambda>p. isPumpEnding p \<or> partKind p = pump_suffix \<or> partKind p = msnjn_suffix) addressParts"

definition combineParts :: "part \<Rightarrow> part \<Rightarrow> string" where
  "combineParts fragmentPart suffixPart =
     partText fragmentPart @
       (if endsWith (take 3 (partText suffixPart)) (partText fragmentPart)
        then drop 3 (partText suffixPart) else partText suffixPart)"

subsection \<open>One incoming message\<close>

definition isVerified :: "verification option \<Rightarrow> bool" where
  "isVerified res = (case res of None \<Rightarrow> False | Some info \<Rightarrow> verified info)"

text \<open>
  A loop that passes each address to \<^verbatim>\<open>processAddress\<close> and raises
  \<^verbatim>\<open>foundVerifiedAddress\<close> when a result is verified; it does not stop early.
\<close>

fun processEach ::
  "network \<Rightarrow> string \<Rightarrow> element \<Rightarrow> bool \<Rightarrow> string list \<Rightarrow> bool \<Rightarrow> scanner \<Rightarrow> bool \<times> scanner" where
  "processEach net txt el fromAI [] foundVerifiedAddress s = (foundVerifiedAddress, s)"
| "processEach net txt el fromAI (address # rest) foundVerifiedAddress s =
     (let (res, s') = processAddress net address txt el fromAI s
      in processEach net txt el fromAI rest (foundVerifiedAddress \<or> isVerified res) s')"

text \<open>The loop over the service's answers, which stops at the first verified one.\<close>

fun tryReconstructions ::
  "network \<Rightarrow> string \<Rightarrow> element \<Rightarrow> string list \<Rightarrow> scanner \<Rightarrow> bool \<times> scanner" where
  "tryReconstructions net txt el [] s = (False, s)"
| "tryReconstructions net txt el (answer # rest) s =
     (let address = (if includesText ''pump'' txt \<and> \<not> endsWith ''pump'' answer
                     then answer @ ''pump'' else answer);
          (res, s') = processAddress net address txt el True s
      in if isVerified res then (True, s') else tryReconstructions net txt el rest s')"

text \<open>The sentence appended to the prompt after a failed attempt.\<close>

definition escalation :: "string list \<Rightarrow> string" where
  "escalation partials =
     '' IMPORTANT: Previous reconstructions were incorrect. Try different combinations including parts like ''
     @ [CHR 0x27] @ join ([CHR 0x27] @ '', '' @ [CHR 0x27]) partials @ [CHR 0x27] @
     '' to form a valid Solana address.''"

text \<open>
  The \<^verbatim>\<open>while (!foundVerifiedAddress && maxAttempts > 0)\<close> loop, by the attempts left.
  It is entered with \<^verbatim>\<open>foundVerifiedAddress\<close> false and left as soon as it is true.
\<close>

fun reconstructWithAI :: "world \<Rightarrow> string \<Rightarrow> element \<Rightarrow> nat \<Rightarrow> scanner \<Rightarrow> scanner" where
  "reconstructWithAI W txt el 0 s = s"
| "reconstructWithAI W txt el (Suc maxAttempts) s =
     (let (aiAddresses, s1) = detectSplitAddressesWithAI W txt (aiPrompt s) ''gpt-3.5-turbo'' s
      in if aiAddresses = [] then s1
         else
           (let (foundVerifiedAddress, s2) = tryReconstructions (providers W) txt el aiAddresses s1
            in if foundVerifiedAddress then s2
               else
                 (let partials = matchAll (\<lambda>afterWord. between 5 10 isBase58) False txt;
                      s3 = (if partials \<noteq> []
                            then s2\<lparr>aiPrompt := aiPrompt s2 @ escalation partials\<rparr> else s2)
                  in reconstructWithAI W txt el maxAttempts s3)))"

text \<open>The condition under which a message without a verified direct match is taken apart.\<close>

definition hasSignal :: "string \<Rightarrow> bool" where
  "hasSignal cleanedText =
     (includesText ''pump'' cleanedText \<or> includesText ''MSNJn'' cleanedText \<or>
      test (\<lambda>afterWord. sequence [lit ''CA'', optional '':'', many isSpace, one isBase58]) cleanedText \<or>
      test (\<lambda>afterWord. sequence [boundary afterWord, between 10 31 isBase58, boundary True])
        cleanedText)"

text \<open>The candidates of the fragment and suffix loops, in the order they are formed.\<close>

definition partCombinations :: "string \<Rightarrow> string list" where
  "partCombinations cleanedText =
     (let addressParts = findPotentialAddressParts cleanedText
      in filter testAddressShape
           [combineParts fragmentPart suffixPart.
            fragmentPart \<leftarrow> fragmentsOf addressParts, suffixPart \<leftarrow> suffixesOf addressParts])"

text \<open>The direct matches of a message, each passed to \<^verbatim>\<open>processAddress\<close>.\<close>

definition processDirectMatches :: "world \<Rightarrow> string \<Rightarrow> element \<Rightarrow> scanner \<Rightarrow> bool \<times> scanner" where
  "processDirectMatches W cleanedText el s =
     processEach (providers W) cleanedText el False
       (matchAll solanaAddressRegex False cleanedText) False s"

text \<open>What \<^verbatim>\<open>checkForSolanaAddresses\<close> does with a message once its id is recorded.\<close>

definition extractAddresses :: "world \<Rightarrow> string \<Rightarrow> element \<Rightarrow> scanner \<Rightarrow> scanner" where
  "extractAddresses W cleanedText el s =
     (let (foundVerifiedAddress, s1) = processDirectMatches W cleanedText el s
      in if \<not> foundVerifiedAddress \<and> hasSignal cleanedText
         then
           (let (foundVerifiedAddress', s2) =
                  processEach (providers W) cleanedText el True (partCombinations cleanedText)
                    foundVerifiedAddress s1
            in if \<not> foundVerifiedAddress' then reconstructWithAI W cleanedText el 3 s2 else s2)
         else s1)"

text \<open>
  \<^verbatim>\<open>getMessageId(element)\<close>: the id of the nearest enclosing node that has one, or else
  an id generated from the clock and a random number.
\<close>

definition getMessageId :: "string \<Rightarrow> element \<Rightarrow> string" where
  "getMessageId generated el =
     (case ancestorId el of None \<Rightarrow> generated | Some i \<Rightarrow> if i = [] then generated else i)"

text \<open>
  \<^verbatim>\<open>checkForSolanaAddresses(text, messageElement)\<close>; an absent text is \<open>None\<close>.
\<close>

definition checkForSolanaAddresses ::
  "world \<Rightarrow> nat \<Rightarrow> string \<Rightarrow> string option \<Rightarrow> element \<Rightarrow> scanner \<Rightarrow> scanner" where
  "checkForSolanaAddresses W now generated textArg messageElement s =
     (case textArg of
        None \<Rightarrow> s
      | Some txt \<Rightarrow>
          if txt = [] \<or> length txt < 5 then s
          else
            (let cleanedText = cleanMessageText txt
             in if cleanedText = [] then s
                else
                  (let s1 = addToMessageBuffer W now cleanedText messageElement s;
                       s2 = s1\<lparr>messageWindow :=
                              pushWindow \<lparr>text = cleanedText, element = messageElement,
                                          timestamp = now\<rparr> (messageWindow s1)\<rparr>;
                       messageId = getMessageId generated messageElement
                   in if messageId \<in> processedMessageIds s2 then s2
                      else extractAddresses W cleanedText messageElement
                             (s2\<lparr>processedMessageIds := insert messageId (processedMessageIds s2)\<rparr>))))"

text \<open>
  What can happen to the scanner, one task at a time: a message arrives; a suspended
  sequential check, the \<open>i\<close>-th of those pending, gets what it waits for from the world
  given and runs to its end; the sliding window is scanned; an address's Bloom button is
  clicked; the auto-send checkbox changes.
\<close>

datatype event =
    Arrives world nat string "string option" element
  | Resumes world nat
  | WindowScan world
  | Click string
  | SetAutoSend bool

fun step :: "event \<Rightarrow> scanner \<Rightarrow> scanner" where
  "step (Arrives W now generated textArg messageElement) s =
     checkForSolanaAddresses W now generated textArg messageElement s"
| "step (Resumes W i) s =
     (if i < length (pending s)
      then resumeSequentialCheck W (pending s ! i)
             (s\<lparr>pending := take i (pending s) @ drop (Suc i) (pending s)\<rparr>)
      else s)"
| "step (WindowScan W) s = checkMessageWindowForAddresses W s"
| "step (Click address) s = snd (sendToBloomBot address s)"
| "step (SetAutoSend enabled) s = s\<lparr>autoSendToBloom := enabled\<rparr>"

definition run :: "event list \<Rightarrow> scanner \<Rightarrow> scanner" where
  "run events s = foldl (\<lambda>s e. step e s) s events"

definition someElement :: element where
  "someElement = \<lparr>node = 7, ancestorId = Some ''chat-messages-1001''\<rparr>"

section \<open>Auxiliary notions for the proofs\<close>

text \<open>A pattern consumes a prefix: what it leaves is a suffix of what it was given.\<close>

definition consumes :: "pattern \<Rightarrow> bool" where
  "consumes p = (\<forall>s rest. p s = Some rest \<longrightarrow> (\<exists>m. s = m @ rest))"

text \<open>
  From \<open>s\<close> to \<open>s'\<close> the forwarding log grew by addresses that were not in the sent set,
  each once, and the sent set grew by exactly those.
\<close>

definition dispatches :: "scanner \<Rightarrow> scanner \<Rightarrow> bool" where
  "dispatches s s' =
     (\<exists>new. forwarded s' = forwarded s @ new \<and> distinct new \<and>
            set new \<inter> bloomSentAddresses s = {} \<and>
            bloomSentAddresses s' = bloomSentAddresses s \<union> set new)"

text \<open>
  The time buffer after an entry has been pushed and the buffer trimmed; the request the
  sequential check sends for two texts; and what a sequential check on the texts \<open>m1\<close>
  and \<open>m2\<close> has done to the scanner by the time it first waits: the first combination
  not among the found addresses was handed to \<^verbatim>\<open>processAddress\<close>, which recorded its
  cleaned form as found and sent the provider requests unless a result was stored; or, no
  combination being new, the joined texts were sent to the service when they have 20
  characters or more.
\<close>

definition buffered :: "nat \<Rightarrow> string \<Rightarrow> element \<Rightarrow> message list \<Rightarrow> message list" where
  "buffered now c el buffer =
     (let pushed = buffer @ [\<lparr>text = c, element = el, timestamp = now\<rparr>];
          bounded = (if length pushed > MAX_BUFFER_SIZE then tl pushed else pushed)
      in dropWhile (\<lambda>m. now - timestamp m > BUFFER_TIME_WINDOW_MS) bounded)"

definition twoMessageRequest :: "string \<Rightarrow> string \<Rightarrow> chatRequest" where
  "twoMessageRequest m1 m2 =
     \<lparr>chatModel = ''gpt-4'', systemPrompt = twoMessagePrompt,
      userContent = ''Analyze this text for potential split Solana addresses: '' @
        [doubleQuote] @ (m1 @ '' '' @ m2) @ [doubleQuote]\<rparr>"

definition startedOn ::
  "network \<Rightarrow> string \<Rightarrow> string \<Rightarrow> element \<Rightarrow> scanner \<Rightarrow> scanner \<Rightarrow> bool" where
  "startedOn net m1 m2 el s s' =
     (case dropWhile (\<lambda>(a, mt). a \<in> foundAddresses s) (sequentialCombinations m1 m2) of
        [] \<Rightarrow>
          processed s' = processed s \<and> foundAddresses s' = foundAddresses s \<and>
          fetched s' = fetched s \<and>
          asked s' = asked s @ (if length (m1 @ '' '' @ m2) < 20 then [] else [twoMessageRequest m1 m2])
      | (a, mt) # rest \<Rightarrow>
          processed s' = processed s @
            [\<lparr>argAddress = a, argMessageText = mt, argElement = el, argIsFromAI = True\<rparr>] \<and>
          asked s' = asked s \<and>
          (case sanitizeAddress a of
             None \<Rightarrow> foundAddresses s' = foundAddresses s \<and> fetched s' = fetched s
           | Some ca \<Rightarrow>
               foundAddresses s' = insert ca (foundAddresses s) \<and>
               (if ca \<in> foundAddresses s \<and> verificationResults s ca \<noteq> None
                then fetched s' = fetched s
                else fetched s' = fetched s @ requests (fullTokenVerification net ca))))"

text \<open>A world in which no provider and no service ever answers, and a short message.\<close>

definition silent :: world where
  "silent = \<lparr>providers = nobodyAnswers, assistant = (\<lambda>n r. None)\<rparr>"

definition halfAddress :: string where
  "halfAddress = ''4k3Dyjzvzp8eMZWUXb''"

text \<open>The scanner after that message has been delivered once, to a silent world.\<close>

definition afterFirst :: scanner where
  "afterFirst =
     checkForSolanaAddresses silent 1000 ''g1'' (Some halfAddress) someElement (initial False)"

text \<open>
  A world whose registry knows every address, a message announcing the sample address,
  and the delivery of that message at a given time.
\<close>

definition confirming :: world where
  "confirming = \<lparr>providers = onlyRegistryAnswers, assistant = (\<lambda>n r. None)\<rparr>"

definition announcement :: string where
  "announcement = ''CA: '' @ sampleAddress"

definition delivery :: "nat \<Rightarrow> event" where
  "delivery now = Arrives confirming now ''g'' (Some announcement) someElement"

text \<open>
  Two parts of the sample address, of 5 and of 39 characters; its last 41 characters;
  and a scanner whose window holds a given pair of texts.
\<close>

definition head5 :: string where
  "head5 = ''4k3Dy''"

definition tail39 :: string where
  "tail39 = ''jzvzp8eMZWUXbBCjEvwSkkk59S5iCNLY3QrkX6R''"

definition tail41 :: string where
  "tail41 = ''Dyjzvzp8eMZWUXbBCjEvwSkkk59S5iCNLY3QrkX6R''"

definition windowOf :: "string \<Rightarrow> string \<Rightarrow> scanner" where
  "windowOf previousMsg currentMsg =
     (initial False)\<lparr>messageWindow :=
        [\<lparr>text = currentMsg, element = someElement, timestamp = 2000\<rparr>,
         \<lparr>text = previousMsg, element = someElement, timestamp = 1000\<rparr>]\<rparr>"

text \<open>
  The request of one reconstruction attempt, the sentence an unsuccessful attempt on a
  text appends to the prompt (nothing when the text has no run of 5 to 10 characters),
  and \<open>k\<close> such sentences in a row.
\<close>

definition reconstructionRequest :: "string \<Rightarrow> string \<Rightarrow> chatRequest" where
  "reconstructionRequest prompt t =
     \<lparr>chatModel = ''gpt-3.5-turbo'', systemPrompt = prompt,
      userContent = ''Analyze this text for potential split Solana addresses: '' @
        [doubleQuote] @ t @ [doubleQuote]\<rparr>"

definition escalationFor :: "string \<Rightarrow> string" where
  "escalationFor t =
     (let partials = matchAll (\<lambda>afterWord. between 5 10 isBase58) False t
      in if partials \<noteq> [] then escalation partials else [])"

definition escalated :: "string \<Rightarrow> nat \<Rightarrow> string" where
  "escalated t k = concat (replicate k (escalationFor t))"

text \<open>
  From \<open>s\<close> to \<open>s'\<close> the service was asked \<open>k\<close> times about \<open>t\<close>, the \<open>i\<close>-th request
  carrying the prompt of \<open>s\<close> with \<open>i\<close> escalations, and the prompt was left with \<open>j\<close>.
\<close>

definition attempts :: "string \<Rightarrow> nat \<Rightarrow> nat \<Rightarrow> scanner \<Rightarrow> scanner \<Rightarrow> bool" where
  "attempts t k j s s' =
     (asked s' = asked s @ map (\<lambda>i. reconstructionRequest (aiPrompt s @ escalated t i) t) [0..<k] \<and>
      aiPrompt s' = aiPrompt s @ escalated t j)"

text \<open>Providers that confirm nothing, a service that always proposes something, and a
  scanner that holds no verified result.\<close>

definition neverConfirms :: "network \<Rightarrow> bool" where
  "neverConfirms net = (\<forall>a p. \<not> confirms net a p)"

definition alwaysAnswers :: "world \<Rightarrow> bool" where
  "alwaysAnswers W =
     (\<forall>n r. case assistant W n r of None \<Rightarrow> False | Some content \<Rightarrow> keepAddressLines content \<noteq> [])"

definition noneVerified :: "scanner \<Rightarrow> bool" where
  "noneVerified s = (\<forall>a v. verificationResults s a = Some v \<longrightarrow> \<not> verified v)"

text \<open>
  A world whose service proposes the sample address whatever it is asked while no
  provider answers, and two unrelated messages that each trigger the fallback.
\<close>

definition misleading :: world where
  "misleading = \<lparr>providers = nobodyAnswers, assistant = (\<lambda>n r. Some sampleAddress)\<rparr>"

definition firstHalf :: string where
  "firstHalf = ''CA: 4k3Dyjzvzp8eMZWUXbBCjEv''"

definition otherToken :: string where
  "otherToken = ''mint 9WzDXwBbmkg8ZTbNMqUxvQRAyrZzDs pump''"

definition firstThenOther :: "event list" where
  "firstThenOther =
     [Arrives misleading 1000 ''g1'' (Some firstHalf) \<lparr>node = 1, ancestorId = Some ''m1''\<rparr>,
      Arrives misleading 60000 ''g2'' (Some otherToken) \<lparr>node = 2, ancestorId = Some ''m2''\<rparr>]"

definition otherAlone :: "event list" where
  "otherAlone =
     [Arrives misleading 60000 ''g2'' (Some otherToken) \<lparr>node = 2, ancestorId = Some ''m2''\<rparr>]"

text \<open>
  Two messages with a fragment and the suffix \<^verbatim>\<open>MSNJnpump\<close>: in the first the fragment
  ends with the suffix's first five characters, in the second with its first three.
  And a message that also holds a complete address.
\<close>

definition overlapping :: string where
  "overlapping = ''8xKq3ZmR7vTnW2pYcD5hF9aBcMSNJn MSNJnpump''"

definition threeShared :: string where
  "threeShared = ''8xKq3ZmR7vTnW2pYcD5hF9aBcdeMSN MSNJnpump''"

definition withAddress :: string where
  "withAddress = sampleAddress @ '' '' @ threeShared"

section \<open>Properties of the validator and the coordinator\<close>

lemma isBase58_alphabet: "isBase58 c \<longleftrightarrow> c \<in> set alphabet58"
  by (cases c) (simp add: isBase58_def inRange_def less_eq_char_def alphabet58_def)

lemma testBase58Plus_iff: "testBase58Plus s \<longleftrightarrow> s \<noteq> [] \<and> set s \<subseteq> set alphabet58"
  by (auto simp: testBase58Plus_def list_all_iff isBase58_alphabet)

lemma requests_multiple: "requests (verifyTokenWithMultipleAPIs net a) \<noteq> []"
  by (simp add: verifyTokenWithMultipleAPIs_def Let_def split: settled.split)


lemma fullTokenVerification_wellFormed:
  "wellFormed s \<Longrightarrow> fullTokenVerification net s = verifyTokenWithMultipleAPIs net s"
  by (auto simp: wellFormed_def fullTokenVerification_def testBase58Plus_iff)

lemma fullTokenVerification_malformed:
  "\<not> wellFormed s \<Longrightarrow> fullTokenVerification net s =
     \<lparr>result = unverified (if length s < 32 \<or> 44 < length s then ''Invalid address format''
                           else ''Invalid address characters''),
      finishedAt = 0, requests = []\<rparr>"
  by (auto simp: wellFormed_def fullTokenVerification_def testBase58Plus_iff)

lemma ambiguous_not_in_alphabet:
  "CHR ''0'' \<notin> set alphabet58" "CHR ''O'' \<notin> set alphabet58"
  "CHR ''I'' \<notin> set alphabet58" "CHR ''l'' \<notin> set alphabet58"
  by (simp_all add: alphabet58_def)

lemma wellFormed_sampleAddress: "wellFormed sampleAddress"
  by (simp add: wellFormed_def sampleAddress_def alphabet58_def)

text \<open>
  C1. The format check of \<^verbatim>\<open>fullTokenVerification\<close> lets a string through to the
  providers exactly when it has 32 to 44 characters, all of the canonical alphabet; every
  other string is turned away with a format rejection and no provider request, among them
  every string of length 31 or 45 and every string containing \<^verbatim>\<open>0\<close>, \<^verbatim>\<open>O\<close>, \<^verbatim>\<open>I\<close>
  or \<^verbatim>\<open>l\<close>.
\<close>

theorem address_format_validator:
  "(wellFormed s \<longrightarrow>
      fullTokenVerification net s = verifyTokenWithMultipleAPIs net s \<and>
      requests (fullTokenVerification net s) \<noteq> []) \<and>
   (\<not> wellFormed s \<longrightarrow>
      requests (fullTokenVerification net s) = [] \<and>
      \<not> verified (result (fullTokenVerification net s)) \<and>
      reason (result (fullTokenVerification net s)) \<in>
        {Some ''Invalid address format'', Some ''Invalid address characters''}) \<and>
   (length s = 31 \<or> length s = 45 \<or> CHR ''0'' \<in> set s \<or> CHR ''O'' \<in> set s \<or>
    CHR ''I'' \<in> set s \<or> CHR ''l'' \<in> set s \<longrightarrow> \<not> wellFormed s)"
proof -
  have "wellFormed s \<longrightarrow>
      fullTokenVerification net s = verifyTokenWithMultipleAPIs net s \<and>
      requests (fullTokenVerification net s) \<noteq> []"
    by (simp add: fullTokenVerification_wellFormed requests_multiple)
  moreover have "\<not> wellFormed s \<longrightarrow>
      requests (fullTokenVerification net s) = [] \<and>
      \<not> verified (result (fullTokenVerification net s)) \<and>
      reason (result (fullTokenVerification net s)) \<in>
        {Some ''Invalid address format'', Some ''Invalid address characters''}"
    by (simp add: fullTokenVerification_malformed unverified_def)
  moreover have "length s = 31 \<or> length s = 45 \<or> CHR ''0'' \<in> set s \<or> CHR ''O'' \<in> set s \<or>
    CHR ''I'' \<in> set s \<or> CHR ''l'' \<in> set s \<longrightarrow> \<not> wellFormed s"
    using ambiguous_not_in_alphabet by (auto simp: wellFormed_def)
  ultimately show ?thesis by blast
qed

theorem address_format_validator_witness:
  "wellFormed sampleAddress \<and>
   requests (fullTokenVerification nobodyAnswers sampleAddress) \<noteq> [] \<and>
   \<not> wellFormed ''4k3Dyjzvzp8eMZWUXbBCjEvwSkkk59S5iCNLY3QrkX0R'' \<and>
   requests (fullTokenVerification nobodyAnswers ''4k3Dyjzvzp8eMZWUXbBCjEvwSkkk59S5iCNLY3QrkX0R'') = []"
proof -
  have bad: "\<not> wellFormed ''4k3Dyjzvzp8eMZWUXbBCjEvwSkkk59S5iCNLY3QrkX0R''"
    by (simp add: wellFormed_def alphabet58_def)
  show ?thesis
    using wellFormed_sampleAddress bad
      address_format_validator [of sampleAddress nobodyAnswers]
      address_format_validator [of "''4k3Dyjzvzp8eMZWUXbBCjEvwSkkk59S5iCNLY3QrkX0R''" nobodyAnswers]
    by blast
qed

text \<open>
  C3, as the specification words it: malformed input is answered with the reason
  \<^verbatim>\<open>invalid format\<close>. The script answers a three-character string with the reason
  \<^verbatim>\<open>Invalid address format\<close>.
\<close>

theorem malformed_reason_counterexample:
  "\<not> wellFormed ''abc'' \<and>
   result (fullTokenVerification nobodyAnswers ''abc'') \<noteq> unverified ''invalid format''"
  by (simp add: fullTokenVerification_def unverified_def wellFormed_def)

text \<open>
  C3, amended. A malformed string never reaches a provider: no request is issued, and
  the result is unverified with the reason \<^verbatim>\<open>Invalid address format\<close> when the length
  is outside 32 to 44, and \<^verbatim>\<open>Invalid address characters\<close> when the length is in range
  but some character is outside the alphabet.
\<close>

theorem malformed_input_fails_fast:
  "\<not> wellFormed s \<Longrightarrow>
     requests (fullTokenVerification net s) = [] \<and>
     result (fullTokenVerification net s) =
       unverified (if length s < 32 \<or> 44 < length s then ''Invalid address format''
                   else ''Invalid address characters'')"
  by (simp add: fullTokenVerification_malformed)

theorem malformed_input_fails_fast_witness:
  "\<not> wellFormed ''O0Il5XWz8HdmhKyZ3vVYCbKnU8qYxPpQ9'' \<and>
   requests (fullTokenVerification onlyRegistryAnswers ''O0Il5XWz8HdmhKyZ3vVYCbKnU8qYxPpQ9'') = [] \<and>
   result (fullTokenVerification onlyRegistryAnswers ''O0Il5XWz8HdmhKyZ3vVYCbKnU8qYxPpQ9'') =
     unverified ''Invalid address characters''"
proof -
  have bad: "\<not> wellFormed ''O0Il5XWz8HdmhKyZ3vVYCbKnU8qYxPpQ9''"
    by (simp add: wellFormed_def alphabet58_def)
  show ?thesis
    using bad malformed_input_fails_fast [OF bad, of onlyRegistryAnswers] by simp
qed

subsection \<open>The race\<close>

lemma verifyWithTimeout_Fulfilled:
  "verifyWithTimeout b d = Fulfilled t r \<longleftrightarrow> b = Returns t r \<and> verified r \<and> t < d"
  by (auto simp: verifyWithTimeout_def split: behaviour.splits if_splits)

lemma firstOf_Fulfilled:
  "firstOf p q = Fulfilled t r \<Longrightarrow>
     (p = Fulfilled t r \<or> q = Fulfilled t r) \<and>
     (\<forall>t' r'. p = Fulfilled t' r' \<or> q = Fulfilled t' r' \<longrightarrow> t \<le> t')"
  by (cases p; cases q) (auto split: if_splits)

lemma firstOf_Rejected:
  "firstOf p q = Rejected t \<Longrightarrow> (\<exists>a b. p = Rejected a \<and> q = Rejected b)"
  by (cases p; cases q) (auto split: if_splits)

lemma promiseAny_Rejected:
  "promiseAny ps = Rejected t \<Longrightarrow> Fulfilled t' r' \<notin> set ps"
proof (induction ps arbitrary: t rule: promiseAny.induct)
  case 1
  then show ?case by simp
next
  case (2 p)
  then show ?case by auto
next
  case (3 p q qs)
  from "3.prems" have "firstOf p (promiseAny (q # qs)) = Rejected t"
    by simp
  from firstOf_Rejected [OF this] obtain a b
    where "p = Rejected a" and "promiseAny (q # qs) = Rejected b"
    by blast
  with "3.IH" show ?case
    by auto
qed

lemma promiseAny_Fulfilled:
  "promiseAny ps = Fulfilled t r \<Longrightarrow>
     Fulfilled t r \<in> set ps \<and> (\<forall>t' r'. Fulfilled t' r' \<in> set ps \<longrightarrow> t \<le> t')"
proof (induction ps arbitrary: t r rule: promiseAny.induct)
  case 1
  then show ?case by simp
next
  case (2 p)
  then show ?case by simp
next
  case (3 p q qs)
  from "3.prems" have f: "firstOf p (promiseAny (q # qs)) = Fulfilled t r"
    by simp
  show ?case
  proof (cases "promiseAny (q # qs)")
    case (Fulfilled u w)
    with "3.IH" have ih: "Fulfilled u w \<in> set (q # qs)"
      "\<And>t' r'. Fulfilled t' r' \<in> set (q # qs) \<Longrightarrow> u \<le> t'"
      by blast+
    from firstOf_Fulfilled [OF f] Fulfilled
    have "(p = Fulfilled t r \<or> (u = t \<and> w = r))" and "t \<le> u"
      and "\<And>t' r'. p = Fulfilled t' r' \<Longrightarrow> t \<le> t'"
      by auto
    with ih show ?thesis
      by (auto intro: order_trans)
  next
    case (Rejected u)
    with f have p: "p = Fulfilled t r"
      by (cases p) auto
    from promiseAny_Rejected [OF Rejected]
    have "\<And>t' r'. Fulfilled t' r' \<notin> set (q # qs)" .
    with p show ?thesis by auto
  qed
qed

lemma multiple_raced:
  "verifyTokenWithMultipleAPIs net a =
     (case promiseAny (raced net a) of
        Fulfilled t r \<Rightarrow> \<lparr>result = r, finishedAt = t,
          requests = [(VerifyJupiterToken, a), (VerifyBirdeyeToken, a), (VerifyRegistryToken, a)]\<rparr>
      | Rejected t \<Rightarrow> \<lparr>result = unverified ''Failed verification with all APIs'', finishedAt = t,
          requests = [(VerifyJupiterToken, a), (VerifyBirdeyeToken, a), (VerifyRegistryToken, a)]\<rparr>)"
  by (simp add: verifyTokenWithMultipleAPIs_def raced_def Let_def)

lemma Fulfilled_raced:
  "Fulfilled t r \<in> set (raced net a) \<longleftrightarrow>
     (\<exists>p. net p a = Returns t r \<and> verified r \<and> t < deadline p)"
proof
  assume "Fulfilled t r \<in> set (raced net a)"
  then obtain p where "verifyWithTimeout (net p a) (deadline p) = Fulfilled t r"
    unfolding raced_def set_map by (auto simp del: deadline.simps)
  then show "\<exists>p. net p a = Returns t r \<and> verified r \<and> t < deadline p"
    unfolding verifyWithTimeout_Fulfilled by blast
next
  assume "\<exists>p. net p a = Returns t r \<and> verified r \<and> t < deadline p"
  then obtain p where p: "net p a = Returns t r \<and> verified r \<and> t < deadline p" ..
  then have "verifyWithTimeout (net p a) (deadline p) = Fulfilled t r"
    by (simp add: verifyWithTimeout_Fulfilled)
  then show "Fulfilled t r \<in> set (raced net a)"
    by (cases p) (auto simp: raced_def)
qed

lemma race_won:
  assumes "confirms net a p"
  shows "\<exists>q t r. net q a = Returns t r \<and> verified r \<and> t < deadline q \<and>
           result (verifyTokenWithMultipleAPIs net a) = r \<and>
           finishedAt (verifyTokenWithMultipleAPIs net a) = t \<and>
           (\<forall>q' t' r'. net q' a = Returns t' r' \<and> verified r' \<and> t' < deadline q' \<longrightarrow> t \<le> t')"
proof -
  from assms obtain t0 r0 where "net p a = Returns t0 r0 \<and> verified r0 \<and> t0 < deadline p"
    by (auto simp: confirms_def split: behaviour.splits)
  then have in0: "Fulfilled t0 r0 \<in> set (raced net a)"
    unfolding Fulfilled_raced by blast
  obtain t r where any: "promiseAny (raced net a) = Fulfilled t r"
    using in0 promiseAny_Rejected by (cases "promiseAny (raced net a)") blast+
  from promiseAny_Fulfilled [OF any]
  have win: "Fulfilled t r \<in> set (raced net a)"
    and least: "\<And>t' r'. Fulfilled t' r' \<in> set (raced net a) \<Longrightarrow> t \<le> t'"
    by blast+
  from win obtain q where q: "net q a = Returns t r \<and> verified r \<and> t < deadline q"
    unfolding Fulfilled_raced by blast
  have "\<forall>q' t' r'. net q' a = Returns t' r' \<and> verified r' \<and> t' < deadline q' \<longrightarrow> t \<le> t'"
    using least Fulfilled_raced by blast
  with q any show ?thesis
    by (auto simp: multiple_raced)
qed

lemma race_lost:
  assumes "\<forall>p. \<not> confirms net a p"
  shows "result (verifyTokenWithMultipleAPIs net a) =
           unverified ''Failed verification with all APIs''"
proof (cases "promiseAny (raced net a)")
  case (Fulfilled t r)
  from promiseAny_Fulfilled [OF this] have "Fulfilled t r \<in> set (raced net a)"
    by blast
  then obtain p where "net p a = Returns t r \<and> verified r \<and> t < deadline p"
    unfolding Fulfilled_raced by blast
  then have "confirms net a p"
    by (simp add: confirms_def)
  with assms show ?thesis by blast
next
  case (Rejected t)
  then show ?thesis by (simp add: multiple_raced)
qed

text \<open>
  C2, as the specification words it: when every provider declines, the coordinator
  answers with the reason \<^verbatim>\<open>no provider confirmed\<close>. With three providers that each
  return \<^verbatim>\<open>verified: false\<close>, the script answers a well-formed address with the reason
  \<^verbatim>\<open>Failed verification with all APIs\<close>.
\<close>

theorem aggregate_reason_counterexample:
  "wellFormed sampleAddress \<and>
   result (fullTokenVerification everyoneDeclines sampleAddress) \<noteq>
     unverified ''no provider confirmed''"
proof -
  have "result (fullTokenVerification everyoneDeclines sampleAddress) =
          unverified ''Failed verification with all APIs''"
    by (simp add: fullTokenVerification_wellFormed [OF wellFormed_sampleAddress]
        verifyTokenWithMultipleAPIs_def verifyWithTimeout_def everyoneDeclines_def unverified_def)
  then show ?thesis
    using wellFormed_sampleAddress by (simp add: unverified_def)
qed

text \<open>
  C2, amended. For a well-formed address the three providers are each called once and
  raced, the two heavier ones under 8000 ms and the registry lookup under 5000 ms. When
  some provider returns a verified result before its timer fires, the coordinator returns
  the result of a provider that did so earliest, at that time; when none does (each
  declines, throws, hangs or is too late) it returns the unverified result with the reason
  \<^verbatim>\<open>Failed verification with all APIs\<close>. It returns a value in every case.
\<close>

theorem verification_race:
  "wellFormed a \<Longrightarrow>
     requests (fullTokenVerification net a) =
       [(VerifyJupiterToken, a), (VerifyBirdeyeToken, a), (VerifyRegistryToken, a)] \<and>
     deadline VerifyJupiterToken = 8000 \<and> deadline VerifyBirdeyeToken = 8000 \<and>
     deadline VerifyRegistryToken = 5000 \<and>
     ((\<exists>p. confirms net a p) \<longrightarrow>
        (\<exists>q t r. net q a = Returns t r \<and> verified r \<and> t < deadline q \<and>
           result (fullTokenVerification net a) = r \<and>
           finishedAt (fullTokenVerification net a) = t \<and>
           (\<forall>q' t' r'. net q' a = Returns t' r' \<and> verified r' \<and> t' < deadline q' \<longrightarrow> t \<le> t'))) \<and>
     ((\<forall>p. \<not> confirms net a p) \<longrightarrow>
        result (fullTokenVerification net a) = unverified ''Failed verification with all APIs'')"
proof -
  assume wf: "wellFormed a"
  have eq: "fullTokenVerification net a = verifyTokenWithMultipleAPIs net a"
    by (rule fullTokenVerification_wellFormed [OF wf])
  have "requests (verifyTokenWithMultipleAPIs net a) =
       [(VerifyJupiterToken, a), (VerifyBirdeyeToken, a), (VerifyRegistryToken, a)]"
    by (simp add: multiple_raced split: settled.split)
  moreover have "(\<exists>p. confirms net a p) \<longrightarrow>
        (\<exists>q t r. net q a = Returns t r \<and> verified r \<and> t < deadline q \<and>
           result (verifyTokenWithMultipleAPIs net a) = r \<and>
           finishedAt (verifyTokenWithMultipleAPIs net a) = t \<and>
           (\<forall>q' t' r'. net q' a = Returns t' r' \<and> verified r' \<and> t' < deadline q' \<longrightarrow> t \<le> t'))"
    using race_won by blast
  moreover have "(\<forall>p. \<not> confirms net a p) \<longrightarrow>
        result (verifyTokenWithMultipleAPIs net a) = unverified ''Failed verification with all APIs''"
    using race_lost by blast
  ultimately show ?thesis
    unfolding eq by simp
qed

theorem verification_race_witness:
  "wellFormed sampleAddress \<and> confirms onlyRegistryAnswers sampleAddress VerifyRegistryToken \<and>
   result (fullTokenVerification onlyRegistryAnswers sampleAddress) = registryToken \<and>
   finishedAt (fullTokenVerification onlyRegistryAnswers sampleAddress) = 1000 \<and>
   (\<forall>p. \<not> confirms nobodyAnswers sampleAddress p) \<and>
   result (fullTokenVerification nobodyAnswers sampleAddress) =
     unverified ''Failed verification with all APIs''"
proof -
  have c: "confirms onlyRegistryAnswers sampleAddress VerifyRegistryToken"
    by (simp add: confirms_def onlyRegistryAnswers_def registryToken_def)
  have n: "\<forall>p. \<not> confirms nobodyAnswers sampleAddress p"
    by (simp add: confirms_def nobodyAnswers_def)
  from verification_race [OF wellFormed_sampleAddress, of onlyRegistryAnswers] c
  obtain q t r where w: "onlyRegistryAnswers q sampleAddress = Returns t r"
    "result (fullTokenVerification onlyRegistryAnswers sampleAddress) = r"
    "finishedAt (fullTokenVerification onlyRegistryAnswers sampleAddress) = t"
    by blast
  from w(1) have "t = 1000 \<and> r = registryToken"
    by (simp add: onlyRegistryAnswers_def split: if_splits)
  with w c n wellFormed_sampleAddress
    verification_race [OF wellFormed_sampleAddress, of nobodyAnswers]
  show ?thesis by simp
qed

section \<open>Properties of the sliding window\<close>






section \<open>Properties of the text functions\<close>

lemma startsWith_iff: "startsWith w s \<longleftrightarrow> (\<exists>post. s = w @ post)"
proof
  assume "startsWith w s"
  then have "s = w @ drop (length w) s"
    unfolding startsWith_def by (metis append_take_drop_id)
  then show "\<exists>post. s = w @ post" ..
next
  assume "\<exists>post. s = w @ post"
  then show "startsWith w s"
    by (auto simp: startsWith_def)
qed

lemma includesText_iff: "includesText w s \<longleftrightarrow> (\<exists>pre post. s = pre @ w @ post)"
proof (induction s)
  case Nil
  then show ?case by auto
next
  case (Cons c cs)
  show ?case
  proof
    assume "includesText w (c # cs)"
    then consider "startsWith w (c # cs)" | "includesText w cs"
      by auto
    then show "\<exists>pre post. c # cs = pre @ w @ post"
    proof cases
      case 1
      then obtain post where "c # cs = [] @ w @ post"
        unfolding startsWith_iff by auto
      then show ?thesis by blast
    next
      case 2
      with Cons obtain pre post where "cs = pre @ w @ post"
        by blast
      then have "c # cs = (c # pre) @ w @ post"
        by simp
      then show ?thesis by blast
    qed
  next
    assume "\<exists>pre post. c # cs = pre @ w @ post"
    then obtain pre post where e: "c # cs = pre @ w @ post"
      by blast
    show "includesText w (c # cs)"
    proof (cases pre)
      case Nil
      with e have "startsWith w (c # cs)"
        unfolding startsWith_iff by auto
      then show ?thesis by simp
    next
      case (Cons d ds)
      with e have "cs = ds @ w @ post"
        by simp
      with Cons.IH have "includesText w cs"
        by blast
      then show ?thesis by simp
    qed
  qed
qed

lemma endsWith_iff: "endsWith w s \<longleftrightarrow> (\<exists>pre. s = pre @ w)"
proof
  assume "endsWith w s"
  then have "s = take (length s - length w) s @ w"
    unfolding endsWith_def by (metis append_take_drop_id)
  then show "\<exists>pre. s = pre @ w" ..
next
  assume "\<exists>pre. s = pre @ w"
  then show "endsWith w s"
    by (auto simp: endsWith_def)
qed

lemma consumes_lit: "consumes (lit w)"
  by (auto simp: consumes_def lit_def startsWith_iff split: if_splits)

lemma consumes_optional: "consumes (optional w)"
  by (auto simp: consumes_def optional_def startsWith_iff split: if_splits)

lemma consumes_one: "consumes (one cls)"
  by (auto simp: consumes_def one_def split: list.splits if_splits)

lemma consumes_drop: "\<exists>m. s = m @ drop k s"
  by (metis append_take_drop_id)

lemma consumes_dropWhile: "\<exists>m. s = m @ dropWhile P s"
  by (metis takeWhile_dropWhile_id)

lemma consumes_many: "consumes (many cls)"
  using consumes_dropWhile by (auto simp: consumes_def many_def)

lemma consumes_many1: "consumes (many1 cls)"
proof -
  have "\<exists>m. c # cs = m @ dropWhile cls cs" for c cs
    by (metis append_Cons takeWhile_dropWhile_id)
  then show ?thesis
    by (auto simp: consumes_def many1_def split: list.splits if_splits)
qed

lemma consumes_between: "consumes (between lo hi cls)"
  using consumes_drop by (auto simp: consumes_def between_def Let_def split: if_splits)

lemma consumes_atLeast: "consumes (atLeast lo cls)"
  using consumes_drop by (auto simp: consumes_def atLeast_def Let_def split: if_splits)

lemma consumes_boundary: "consumes (boundary aw)"
  by (auto simp: consumes_def boundary_def split: if_splits)

lemma consumes_sequence: "\<forall>p \<in> set ps. consumes p \<Longrightarrow> consumes (sequence ps)"
proof (induction ps)
  case Nil
  then show ?case by (simp add: consumes_def)
next
  case (Cons p ps)
  then have p: "consumes p" and ps: "consumes (sequence ps)"
    by simp_all
  show ?case
    unfolding consumes_def
  proof (intro allI impI)
    fix s rest
    assume "sequence (p # ps) s = Some rest"
    then obtain mid where "p s = Some mid" "sequence ps mid = Some rest"
      by (auto split: option.splits)
    with p ps obtain m1 m2 where "s = m1 @ mid" "mid = m2 @ rest"
      unfolding consumes_def by blast
    then have "s = (m1 @ m2) @ rest"
      by simp
    then show "\<exists>m. s = m @ rest" ..
  qed
qed

lemmas consumes_items = consumes_lit consumes_optional consumes_one consumes_many consumes_many1
  consumes_between consumes_atLeast consumes_boundary

lemma matchAll_elem:
  shows "\<forall>aw. consumes (re aw) \<Longrightarrow> m \<in> set (matchAll re aw s) \<Longrightarrow>
         \<exists>pre post aw'. s = pre @ m @ post \<and> re aw' (m @ post) = Some post \<and> m \<noteq> []"
proof (induction re aw s rule: matchAll.induct)
  case (1 re afterWord)
  then show ?case by simp
next
  case (2 re afterWord c cs)
  note wb = "2.prems"(1)
  note mem = "2.prems"(2)
  show ?case
  proof (cases "re afterWord (c # cs)")
    case None
    with mem have "m \<in> set (matchAll re (isWordChar c) cs)"
      by simp
    from "2.IH"(1) [OF None wb this] obtain pre post aw'
      where "cs = pre @ m @ post" "re aw' (m @ post) = Some post" "m \<noteq> []"
      by blast
    then have "c # cs = (c # pre) @ m @ post"
      by simp
    with \<open>re aw' (m @ post) = Some post\<close> \<open>m \<noteq> []\<close> show ?thesis
      by blast
  next
    case (Some rest)
    show ?thesis
    proof (cases "length rest < length (c # cs)")
      case True
      from wb Some obtain m' where m': "c # cs = m' @ rest"
        unfolding consumes_def by blast
      with True have ne: "m' \<noteq> []"
        by auto
      from m' have tk: "take (length (c # cs) - length rest) (c # cs) = m'"
        by simp
      from mem Some True tk
      have "m = m' \<or> m \<in> set (matchAll re (isWordChar (last m')) rest)"
        by (simp add: Let_def del: take_Suc_Cons length_Cons)
      then show ?thesis
      proof
        assume "m = m'"
        with m' Some ne have "c # cs = [] @ m @ rest \<and> re afterWord (m @ rest) = Some rest \<and> m \<noteq> []"
          by simp
        then show ?thesis by blast
      next
        assume "m \<in> set (matchAll re (isWordChar (last m')) rest)"
        then have "m \<in> set (matchAll re (isWordChar (last (take (length (c # cs) - length rest) (c # cs)))) rest)"
          unfolding tk .
        from "2.IH"(2) [OF Some True refl wb this] obtain pre post aw'
          where "rest = pre @ m @ post" "re aw' (m @ post) = Some post" "m \<noteq> []"
          by blast
        with m' have "c # cs = (m' @ pre) @ m @ post"
          by simp
        with \<open>re aw' (m @ post) = Some post\<close> \<open>m \<noteq> []\<close> show ?thesis
          by blast
      qed
    next
      case False
      with mem Some have "m \<in> set (matchAll re (isWordChar c) cs)"
        by simp
      from "2.IH"(3) [OF Some False wb this] obtain pre post aw'
        where "cs = pre @ m @ post" "re aw' (m @ post) = Some post" "m \<noteq> []"
        by blast
      then have "c # cs = (c # pre) @ m @ post"
        by simp
      with \<open>re aw' (m @ post) = Some post\<close> \<open>m \<noteq> []\<close> show ?thesis
        by blast
    qed
  qed
qed

lemma atLeast_run:
  assumes "atLeast lo cls (f @ post) = Some post"
  shows "list_all cls f \<and> lo \<le> length f"
proof -
  let ?k = "length (takeWhile cls (f @ post))"
  from assms have lo: "lo \<le> ?k" and d: "drop ?k (f @ post) = post"
    by (auto simp: atLeast_def Let_def split: if_splits)
  have "?k \<le> length (f @ post)"
    by (rule length_takeWhile_le)
  with d have k: "?k = length f"
    by (metis add_diff_cancel_right' diff_diff_cancel length_append length_drop)
  have "takeWhile cls (f @ post) = take ?k (f @ post)"
    by (metis takeWhile_eq_take)
  then have "takeWhile cls (f @ post) = f"
    using k by simp
  then have "list_all cls f"
    by (metis list_all_iff set_takeWhileD)
  with lo k show ?thesis by simp
qed

lemma sequential_fragment:
  assumes "f \<in> set (matchAll (\<lambda>afterWord. atLeast 5 isBase58) aw s)"
  shows "list_all isBase58 f \<and> 5 \<le> length f"
proof -
  have "\<forall>aw. consumes ((\<lambda>afterWord. atLeast 5 isBase58) aw)"
    by (simp add: consumes_atLeast)
  from matchAll_elem [OF this assms] obtain post where "atLeast 5 isBase58 (f @ post) = Some post"
    by blast
  then show ?thesis by (rule atLeast_run)
qed

section \<open>Properties of ingestion\<close>

lemma ignored_absent: "checkForSolanaAddresses W now generated None el s = s"
  by (simp add: checkForSolanaAddresses_def)

lemma ignored_short: "length txt < 5 \<Longrightarrow> checkForSolanaAddresses W now generated (Some txt) el s = s"
  by (simp add: checkForSolanaAddresses_def)

lemma ignored_empty:
  "cleanMessageText txt = [] \<Longrightarrow> checkForSolanaAddresses W now generated (Some txt) el s = s"
  by (simp add: checkForSolanaAddresses_def)

text \<open>
  C9. A message whose text is absent, or shorter than 5 characters, or empty once the
  timestamps are cleaned away, leaves the scanner as it was: nothing enters the sliding
  window or the time buffer, no check is started and no candidate is processed. The
  four-character message \<^verbatim>\<open>pump\<close> is such a message.
\<close>

theorem unusable_message_ignored:
  "(textArg = None \<or> (\<exists>txt. textArg = Some txt \<and> (length txt < 5 \<or> cleanMessageText txt = []))
      \<longrightarrow> checkForSolanaAddresses W now generated textArg el s = s) \<and>
   checkForSolanaAddresses W now generated (Some ''pump'') el s = s"
proof (intro conjI impI)
  assume "textArg = None \<or> (\<exists>txt. textArg = Some txt \<and> (length txt < 5 \<or> cleanMessageText txt = []))"
  then show "checkForSolanaAddresses W now generated textArg el s = s"
    using ignored_absent ignored_short ignored_empty by (elim disjE exE conjE) simp_all
next
  show "checkForSolanaAddresses W now generated (Some ''pump'') el s = s"
    by (simp add: ignored_short)
qed

lemma clean_clock: "cleanMessageText ''12:30 PM'' = []"
  by code_simp

theorem unusable_message_ignored_witness:
  "\<not> length ''12:30 PM'' < 5 \<and> cleanMessageText ''12:30 PM'' = [] \<and>
   checkForSolanaAddresses silent 5 ''g'' (Some ''12:30 PM'') someElement (initial True) = initial True \<and>
   checkForSolanaAddresses silent 5 ''g'' None someElement (initial True) = initial True"
  using clean_clock
    unusable_message_ignored [of "Some ''12:30 PM''" silent 5 "''g''" someElement "initial True"]
    unusable_message_ignored [of None silent 5 "''g''" someElement "initial True"]
  by simp

lemma bounded_snoc:
  "\<exists>ys. (if length (xs @ [e]) > MAX_BUFFER_SIZE then tl (xs @ [e]) else xs @ [e]) = ys @ [e]"
proof (cases xs)
  case Nil
  then show ?thesis by (simp add: MAX_BUFFER_SIZE_def)
next
  case (Cons a list)
  then show ?thesis by simp
qed

lemma bounded_snoc2:
  "\<exists>ys. (if length (xs @ [p, e]) > MAX_BUFFER_SIZE then tl (xs @ [p, e]) else xs @ [p, e]) = ys @ [p, e]"
proof (cases xs)
  case Nil
  then show ?thesis by (simp add: MAX_BUFFER_SIZE_def)
next
  case (Cons a list)
  then show ?thesis by simp
qed

text \<open>The two halves of \<^verbatim>\<open>processAddress\<close>, one after the other, are the whole function.\<close>

lemma processAddress_halves:
  "processAddress net a mt el ai s =
     (case beginProcessAddress net a mt el ai s of
        (NoAddress, s1) \<Rightarrow> (None, s1)
      | (KnownResult existingVerification, s1) \<Rightarrow> (Some existingVerification, s1)
      | (Verifying cleanAddress, s1) \<Rightarrow>
          (let (info, s2) = finishProcessAddress net cleanAddress s1 in (Some info, s2)))"
  by (simp add: processAddress_def beginProcessAddress_def finishProcessAddress_def Let_def
      sendToBloomBot_def split: option.split)

lemma beginProcessAddress_frame:
  "verificationResults (snd (beginProcessAddress net a mt el ai s)) = verificationResults s"
  "bloomSentAddresses (snd (beginProcessAddress net a mt el ai s)) = bloomSentAddresses s"
  "processedMessageIds (snd (beginProcessAddress net a mt el ai s)) = processedMessageIds s"
  "messageWindow (snd (beginProcessAddress net a mt el ai s)) = messageWindow s"
  "RECENT_MESSAGES_BUFFER (snd (beginProcessAddress net a mt el ai s)) = RECENT_MESSAGES_BUFFER s"
  "aiPrompt (snd (beginProcessAddress net a mt el ai s)) = aiPrompt s"
  "autoSendToBloom (snd (beginProcessAddress net a mt el ai s)) = autoSendToBloom s"
  "forwarded (snd (beginProcessAddress net a mt el ai s)) = forwarded s"
  "asked (snd (beginProcessAddress net a mt el ai s)) = asked s"
  "pending (snd (beginProcessAddress net a mt el ai s)) = pending s"
  by (simp_all add: beginProcessAddress_def Let_def split: option.splits)

lemma beginProcessAddress_processed:
  "processed (snd (beginProcessAddress net a mt el ai s)) =
     processed s @ [\<lparr>argAddress = a, argMessageText = mt, argElement = el, argIsFromAI = ai\<rparr>]"
  by (simp add: beginProcessAddress_def Let_def split: option.splits)

lemma beginProcessAddress_none:
  assumes "sanitizeAddress a = None"
  shows "foundAddresses (snd (beginProcessAddress net a mt el ai s)) = foundAddresses s"
    and "fetched (snd (beginProcessAddress net a mt el ai s)) = fetched s"
  using assms by (simp_all add: beginProcessAddress_def Let_def)

lemma beginProcessAddress_found:
  assumes "sanitizeAddress a = Some ca"
  shows "foundAddresses (snd (beginProcessAddress net a mt el ai s)) = insert ca (foundAddresses s)"
  using assms by (auto simp: beginProcessAddress_def Let_def split: option.splits)

lemma beginProcessAddress_fetched:
  assumes "sanitizeAddress a = Some ca"
    and "ca \<notin> foundAddresses s \<or> verificationResults s ca = None"
  shows "fetched (snd (beginProcessAddress net a mt el ai s)) =
           fetched s @ requests (fullTokenVerification net ca)"
    and "fst (beginProcessAddress net a mt el ai s) = Verifying ca"
  using assms by (auto simp: beginProcessAddress_def Let_def split: option.splits)

lemma beginProcessAddress_known:
  assumes "sanitizeAddress a = Some ca"
    and "ca \<in> foundAddresses s" and "verificationResults s ca = Some v"
  shows "fetched (snd (beginProcessAddress net a mt el ai s)) = fetched s"
    and "fst (beginProcessAddress net a mt el ai s) = KnownResult v"
  using assms by (simp_all add: beginProcessAddress_def Let_def)

lemma beginNew_skip:
  "beginNew net el cands s =
     beginNew net el (dropWhile (\<lambda>(a, mt). a \<in> foundAddresses s) cands) s"
  by (induction cands) auto

lemma beginNew_none:
  assumes "dropWhile (\<lambda>(a, mt). a \<in> foundAddresses s) cands = []"
  shows "beginNew net el cands s = (None, s)"
  by (subst beginNew_skip) (simp add: assms)

lemma beginNew_some:
  assumes "dropWhile (\<lambda>(a, mt). a \<in> foundAddresses s) cands = (a, mt) # rest"
  shows "beginNew net el cands s =
           (Some (fst (beginProcessAddress net a mt el True s), rest),
            snd (beginProcessAddress net a mt el True s))"
proof -
  from assms have "\<not> (case (a, mt) of (a, mt) \<Rightarrow> a \<in> foundAddresses s)"
    using hd_dropWhile [of "\<lambda>(a, mt). a \<in> foundAddresses s" cands] by simp
  then have "a \<notin> foundAddresses s"
    by simp
  then show ?thesis
    by (subst beginNew_skip) (simp add: assms split_beta)
qed

lemma checkSequentialMessages_pair:
  assumes b: "RECENT_MESSAGES_BUFFER s = zs @ [p, e]"
  shows "checkSequentialMessages W s =
     (case beginNew (providers W) (element e) (sequentialCombinations (text p) (text e)) s of
        (Some (reached, rest), s1) \<Rightarrow>
          s1\<lparr>pending := pending s1 @
             [\<lparr>waitingFor = AddressResult reached, untried = rest,
               pairText = text p @ '' '' @ text e\<rparr>]\<rparr>
      | (None, s1) \<Rightarrow>
          if length (text p @ '' '' @ text e) < 20 then s1
          else s1\<lparr>asked := asked s1 @ [twoMessageRequest (text p) (text e)],
                  pending := pending s1 @
                    [\<lparr>waitingFor = ChatAnswer (length (asked s1)) (twoMessageRequest (text p) (text e)),
                      untried = [], pairText = text p @ '' '' @ text e\<rparr>]\<rparr>)"
proof -
  have "length (zs @ [p, e]) - 2 = length zs" "length (zs @ [p, e]) - 1 = Suc (length zs)"
    by simp_all
  then have n: "(zs @ [p, e]) ! (length (zs @ [p, e]) - 2) = p"
    "(zs @ [p, e]) ! (length (zs @ [p, e]) - 1) = e"
    by (simp_all add: nth_append)
  show ?thesis
    unfolding checkSequentialMessages_def Let_def b n twoMessageRequest_def
    by (simp split: prod.splits option.splits)
qed

lemma checkSequentialMessages_short:
  "length (RECENT_MESSAGES_BUFFER s) < 2 \<Longrightarrow> checkSequentialMessages W s = s"
  by (simp add: checkSequentialMessages_def)

lemma beginNew_frame:
  assumes "beginNew net el cands s = (r, s1)"
  shows "verificationResults s1 = verificationResults s \<and>
   bloomSentAddresses s1 = bloomSentAddresses s \<and>
   processedMessageIds s1 = processedMessageIds s \<and>
   messageWindow s1 = messageWindow s \<and>
   RECENT_MESSAGES_BUFFER s1 = RECENT_MESSAGES_BUFFER s \<and>
   aiPrompt s1 = aiPrompt s \<and>
   autoSendToBloom s1 = autoSendToBloom s \<and>
   forwarded s1 = forwarded s \<and>
   asked s1 = asked s \<and>
   pending s1 = pending s"
proof (cases "dropWhile (\<lambda>(a, mt). a \<in> foundAddresses s) cands")
  case Nil
  from beginNew_none [OF Nil, of net el] assms show ?thesis
    by simp
next
  case (Cons x rest)
  obtain a mt where x: "x = (a, mt)"
    by (cases x)
  from beginNew_some [OF Cons [unfolded x], of net el] assms
  have "s1 = snd (beginProcessAddress net a mt el True s)"
    by simp
  then show ?thesis
    by (simp add: beginProcessAddress_frame)
qed

lemma checkSequentialMessages_frame:
  "verificationResults (checkSequentialMessages W s) = verificationResults s"
  "bloomSentAddresses (checkSequentialMessages W s) = bloomSentAddresses s"
  "processedMessageIds (checkSequentialMessages W s) = processedMessageIds s"
  "messageWindow (checkSequentialMessages W s) = messageWindow s"
  "RECENT_MESSAGES_BUFFER (checkSequentialMessages W s) = RECENT_MESSAGES_BUFFER s"
  "aiPrompt (checkSequentialMessages W s) = aiPrompt s"
  "autoSendToBloom (checkSequentialMessages W s) = autoSendToBloom s"
  "forwarded (checkSequentialMessages W s) = forwarded s"
  by (auto simp: checkSequentialMessages_def Let_def split: prod.splits option.splits
      dest!: beginNew_frame)

lemma addToMessageBuffer_eq:
  "addToMessageBuffer W now c el s =
     (if 2 \<le> length (buffered now c el (RECENT_MESSAGES_BUFFER s))
      then checkSequentialMessages W
             (s\<lparr>RECENT_MESSAGES_BUFFER := buffered now c el (RECENT_MESSAGES_BUFFER s)\<rparr>)
      else s\<lparr>RECENT_MESSAGES_BUFFER := buffered now c el (RECENT_MESSAGES_BUFFER s)\<rparr>)"
  by (simp add: addToMessageBuffer_def buffered_def Let_def)

lemma addToMessageBuffer_frame:
  "verificationResults (addToMessageBuffer W now c el s) = verificationResults s"
  "bloomSentAddresses (addToMessageBuffer W now c el s) = bloomSentAddresses s"
  "processedMessageIds (addToMessageBuffer W now c el s) = processedMessageIds s"
  "messageWindow (addToMessageBuffer W now c el s) = messageWindow s"
  "aiPrompt (addToMessageBuffer W now c el s) = aiPrompt s"
  "autoSendToBloom (addToMessageBuffer W now c el s) = autoSendToBloom s"
  "forwarded (addToMessageBuffer W now c el s) = forwarded s"
  "RECENT_MESSAGES_BUFFER (addToMessageBuffer W now c el s) =
     buffered now c el (RECENT_MESSAGES_BUFFER s)"
  by (simp_all add: addToMessageBuffer_eq checkSequentialMessages_frame)

lemma buffered_last:
  "buffered now c el buffer \<noteq> [] \<and>
   last (buffered now c el buffer) = \<lparr>text = c, element = el, timestamp = now\<rparr>"
proof -
  let ?e = "\<lparr>text = c, element = el, timestamp = now\<rparr>"
  let ?pushed = "buffer @ [?e]"
  let ?bounded = "if length ?pushed > MAX_BUFFER_SIZE then tl ?pushed else ?pushed"
  obtain ys where b: "?bounded = ys @ [?e]"
    using bounded_snoc [of buffer ?e] by (elim exE)
  have "dropWhile (\<lambda>m. now - timestamp m > BUFFER_TIME_WINDOW_MS) ?bounded =
        dropWhile (\<lambda>m. now - timestamp m > BUFFER_TIME_WINDOW_MS) ys @ [?e]"
    unfolding b by (simp add: dropWhile_append3)
  then show ?thesis
    by (simp add: buffered_def Let_def)
qed

lemma buffered_pair:
  assumes recent: "now - timestamp p \<le> BUFFER_TIME_WINDOW_MS"
  shows "\<exists>zs. buffered now c el (xs @ [p]) = zs @ [p, \<lparr>text = c, element = el, timestamp = now\<rparr>]"
proof -
  let ?e = "\<lparr>text = c, element = el, timestamp = now\<rparr>"
  let ?old = "\<lambda>m. now - timestamp m > BUFFER_TIME_WINDOW_MS"
  let ?bounded = "if length (xs @ [p, ?e]) > MAX_BUFFER_SIZE then tl (xs @ [p, ?e]) else xs @ [p, ?e]"
  obtain ys where b: "?bounded = ys @ [p, ?e]"
    using bounded_snoc2 [of xs p ?e] by (elim exE)
  have "\<not> ?old p"
    using recent by simp
  then have d: "dropWhile ?old ?bounded = dropWhile ?old ys @ [p, ?e]"
    unfolding b by (simp add: dropWhile_append3)
  have r: "buffered now c el (xs @ [p]) = dropWhile ?old ?bounded"
    by (simp add: buffered_def Let_def)
  show ?thesis
    unfolding r d by blast
qed

lemma duplicate_state:
  assumes "\<not> length t < 5" and "cleanMessageText t \<noteq> []"
    and "getMessageId generated el \<in> processedMessageIds s"
  shows "checkForSolanaAddresses W now generated (Some t) el s =
           (addToMessageBuffer W now (cleanMessageText t) el s)
             \<lparr>messageWindow := pushWindow
                \<lparr>text = cleanMessageText t, element = el, timestamp = now\<rparr> (messageWindow s)\<rparr>"
proof -
  from assms(1) have "t \<noteq> []"
    by auto
  with assms show ?thesis
    by (simp add: checkForSolanaAddresses_def Let_def addToMessageBuffer_frame)
qed

lemma pushWindow_explicit:
  "pushWindow entry window =
     (if length window < 10 then entry # window else entry # butlast window)"
  by (cases window) (simp_all add: pushWindow_def MAX_WINDOW_SIZE_def Let_def)

lemma self_combination:
  assumes "f \<in> set (matchAll (\<lambda>afterWord. atLeast 5 isBase58) False c)"
    and "16 \<le> length f" and "length f \<le> 22"
  shows "(f @ f, f @ '' + '' @ f) \<in> set (sequentialCombinations c c)"
proof -
  from sequential_fragment [OF assms(1)] have "list_all isBase58 f"
    by simp
  with assms(2,3) have "testAddressShape (f @ f)"
    by (simp add: testAddressShape_def)
  then have "(f @ f, f @ '' + '' @ f) \<in> set (pairCombinations f f)"
    by (simp add: pairCombinations_def)
  with assms(1) show ?thesis
    unfolding sequentialCombinations_def Let_def by auto
qed

text \<open>What the sequential check leaves when it is started on a buffer ending in two entries.\<close>

lemma check_started:
  assumes b: "RECENT_MESSAGES_BUFFER s = zs @ [p, e]"
  shows "startedOn (providers W) (text p) (text e) (element e) s (checkSequentialMessages W s)"
proof (cases "dropWhile (\<lambda>(a, mt). a \<in> foundAddresses s) (sequentialCombinations (text p) (text e))")
  case Nil
  have eq: "checkSequentialMessages W s =
      (if length (text p @ '' '' @ text e) < 20 then s
       else s\<lparr>asked := asked s @ [twoMessageRequest (text p) (text e)],
              pending := pending s @
                [\<lparr>waitingFor = ChatAnswer (length (asked s)) (twoMessageRequest (text p) (text e)),
                  untried = [], pairText = text p @ '' '' @ text e\<rparr>]\<rparr>)"
    unfolding checkSequentialMessages_pair [OF b] beginNew_none [OF Nil] by simp
  show ?thesis
    unfolding startedOn_def eq Nil by simp
next
  case (Cons x rest)
  obtain a mt where x: "x = (a, mt)"
    by (cases x)
  let ?s1 = "snd (beginProcessAddress (providers W) a mt (element e) True s)"
  let ?r = "fst (beginProcessAddress (providers W) a mt (element e) True s)"
  have eq: "checkSequentialMessages W s =
      ?s1\<lparr>pending := pending ?s1 @
         [\<lparr>waitingFor = AddressResult ?r, untried = rest, pairText = text p @ '' '' @ text e\<rparr>]\<rparr>"
    unfolding checkSequentialMessages_pair [OF b] beginNew_some [OF Cons [unfolded x]] by simp
  have san: "case sanitizeAddress a of
       None \<Rightarrow> foundAddresses ?s1 = foundAddresses s \<and> fetched ?s1 = fetched s
     | Some ca \<Rightarrow>
         foundAddresses ?s1 = insert ca (foundAddresses s) \<and>
         (if ca \<in> foundAddresses s \<and> verificationResults s ca \<noteq> None then fetched ?s1 = fetched s
          else fetched ?s1 = fetched s @ requests (fullTokenVerification (providers W) ca))"
  proof (cases "sanitizeAddress a")
    case None
    then show ?thesis
      by (simp add: beginProcessAddress_none)
  next
    case (Some ca)
    show ?thesis
    proof (cases "ca \<in> foundAddresses s \<and> verificationResults s ca \<noteq> None")
      case True
      then obtain v where "verificationResults s ca = Some v"
        by blast
      with True Some show ?thesis
        by (simp add: beginProcessAddress_found beginProcessAddress_known)
    next
      case False
      then have "ca \<notin> foundAddresses s \<or> verificationResults s ca = None"
        by blast
      from beginProcessAddress_fetched(1) [OF Some this, of "providers W" mt "element e" True]
      have "fetched ?s1 = fetched s @ requests (fullTokenVerification (providers W) ca)" .
      moreover have "foundAddresses ?s1 = insert ca (foundAddresses s)"
        by (rule beginProcessAddress_found [OF Some])
      ultimately show ?thesis
        by (simp only: Some option.case False if_False simp_thms)
    qed
  qed
  show ?thesis
    unfolding startedOn_def eq Cons x using san
    by (simp add: beginProcessAddress_frame beginProcessAddress_processed split: option.splits)
qed

lemma startedOn_fields:
  assumes "foundAddresses t = foundAddresses s" and "processed t = processed s"
    and "fetched t = fetched s" and "asked t = asked s"
    and "verificationResults t = verificationResults s"
    and "foundAddresses t' = foundAddresses s'" and "processed t' = processed s'"
    and "fetched t' = fetched s'" and "asked t' = asked s'"
  shows "startedOn net m1 m2 el t t' = startedOn net m1 m2 el s s'"
  unfolding startedOn_def assms by (rule refl)

lemma addToMessageBuffer_single:
  assumes "length (RECENT_MESSAGES_BUFFER (addToMessageBuffer W now c el s)) < 2"
  shows "addToMessageBuffer W now c el s =
           s\<lparr>RECENT_MESSAGES_BUFFER := buffered now c el (RECENT_MESSAGES_BUFFER s)\<rparr>"
proof -
  from assms have "\<not> 2 \<le> length (buffered now c el (RECENT_MESSAGES_BUFFER s))"
    by (simp add: addToMessageBuffer_frame)
  then show ?thesis
    by (simp add: addToMessageBuffer_eq)
qed

lemma addToMessageBuffer_pair:
  assumes xs: "RECENT_MESSAGES_BUFFER s = xs @ [p]"
    and recent: "now - timestamp p \<le> BUFFER_TIME_WINDOW_MS"
  shows "\<exists>zs. RECENT_MESSAGES_BUFFER (addToMessageBuffer W now c el s) =
           zs @ [p, \<lparr>text = c, element = el, timestamp = now\<rparr>]"
    and "startedOn (providers W) (text p) c el s (addToMessageBuffer W now c el s)"
proof -
  let ?e = "\<lparr>text = c, element = el, timestamp = now\<rparr>"
  let ?s = "s\<lparr>RECENT_MESSAGES_BUFFER := buffered now c el (RECENT_MESSAGES_BUFFER s)\<rparr>"
  obtain zs where zs: "buffered now c el (RECENT_MESSAGES_BUFFER s) = zs @ [p, ?e]"
    unfolding xs using buffered_pair [OF recent, of c el xs] by (elim exE)
  then show "\<exists>zs. RECENT_MESSAGES_BUFFER (addToMessageBuffer W now c el s) = zs @ [p, ?e]"
    by (simp add: addToMessageBuffer_frame)
  have b: "RECENT_MESSAGES_BUFFER ?s = zs @ [p, ?e]"
    using zs by simp
  have eq: "addToMessageBuffer W now c el s = checkSequentialMessages W ?s"
    by (simp add: addToMessageBuffer_eq zs)
  from check_started [OF b, of W]
  have "startedOn (providers W) (text p) c el ?s (checkSequentialMessages W ?s)"
    by simp
  also have "startedOn (providers W) (text p) c el ?s (checkSequentialMessages W ?s) =
      startedOn (providers W) (text p) c el s (checkSequentialMessages W ?s)"
    by (rule startedOn_fields) simp_all
  finally show "startedOn (providers W) (text p) c el s (addToMessageBuffer W now c el s)"
    unfolding eq .
qed

text \<open>
  C10. A message that passes the text guards but whose id was already processed still
  goes to the front of the sliding window (whose oldest entry leaves when ten are
  held) and into the time buffer, where it is the newest entry. When the entry before
  it is at most 10 seconds old, the two are the last two of the buffer and the
  sequential check is started on them within the insertion, before the id is looked
  up: the first combination of their fragments that is not yet a found address is
  handed to \<^verbatim>\<open>processAddress\<close>, which records it as found and sends the provider
  requests, or else the joined texts are sent to the service. If that entry is a copy
  of the message, every fragment of 16 to 22 characters is combined with itself into
  a candidate. When the buffer holds the new entry alone, no check is started. The
  extraction is skipped: the processed ids, the prompt, the stored results and the
  forwarded addresses stay as they were.
\<close>

theorem duplicate_delivery_reaches_buffers:
  "5 \<le> length t \<Longrightarrow> cleanMessageText t \<noteq> [] \<Longrightarrow>
   getMessageId generated el \<in> processedMessageIds s \<Longrightarrow>
   (let c = cleanMessageText t;
        entry = \<lparr>text = c, element = el, timestamp = now\<rparr>;
        s' = checkForSolanaAddresses W now generated (Some t) el s
    in messageWindow s' =
         (if length (messageWindow s) < 10 then entry # messageWindow s
          else entry # butlast (messageWindow s)) \<and>
       RECENT_MESSAGES_BUFFER s' \<noteq> [] \<and> last (RECENT_MESSAGES_BUFFER s') = entry \<and>
       (\<forall>xs p. RECENT_MESSAGES_BUFFER s = xs @ [p] \<and> now - timestamp p \<le> 10000 \<longrightarrow>
          (\<exists>zs. RECENT_MESSAGES_BUFFER s' = zs @ [p, entry]) \<and>
          startedOn (providers W) (text p) c el s s') \<and>
       (\<forall>f \<in> set (matchAll (\<lambda>afterWord. atLeast 5 isBase58) False c).
          16 \<le> length f \<and> length f \<le> 22 \<longrightarrow>
          (f @ f, f @ '' + '' @ f) \<in> set (sequentialCombinations c c)) \<and>
       (length (RECENT_MESSAGES_BUFFER s') < 2 \<longrightarrow>
          processed s' = processed s \<and> foundAddresses s' = foundAddresses s \<and>
          fetched s' = fetched s \<and> asked s' = asked s \<and> pending s' = pending s) \<and>
       processedMessageIds s' = processedMessageIds s \<and> aiPrompt s' = aiPrompt s \<and>
       verificationResults s' = verificationResults s \<and> forwarded s' = forwarded s \<and>
       bloomSentAddresses s' = bloomSentAddresses s)"
proof -
  assume len: "5 \<le> length t" and ne: "cleanMessageText t \<noteq> []"
    and dup: "getMessageId generated el \<in> processedMessageIds s"
  define c where "c = cleanMessageText t"
  define entry where "entry = \<lparr>text = c, element = el, timestamp = now\<rparr>"
  define s' where "s' = checkForSolanaAddresses W now generated (Some t) el s"
  define s1 where "s1 = addToMessageBuffer W now c el s"
  from len have "\<not> length t < 5"
    by simp
  from duplicate_state [OF this ne dup, of W now]
  have eq: "s' = s1\<lparr>messageWindow := pushWindow entry (messageWindow s)\<rparr>"
    unfolding s'_def c_def entry_def s1_def .
  have w: "messageWindow s' =
         (if length (messageWindow s) < 10 then entry # messageWindow s
          else entry # butlast (messageWindow s))"
    unfolding eq by (simp add: pushWindow_explicit)
  have b: "RECENT_MESSAGES_BUFFER s' = buffered now c el (RECENT_MESSAGES_BUFFER s)"
    unfolding eq s1_def by (simp add: addToMessageBuffer_frame)
  have l: "RECENT_MESSAGES_BUFFER s' \<noteq> [] \<and> last (RECENT_MESSAGES_BUFFER s') = entry"
    unfolding b entry_def by (rule buffered_last)
  have two: "\<forall>xs p. RECENT_MESSAGES_BUFFER s = xs @ [p] \<and> now - timestamp p \<le> 10000 \<longrightarrow>
          (\<exists>zs. RECENT_MESSAGES_BUFFER s' = zs @ [p, entry]) \<and>
          startedOn (providers W) (text p) c el s s'"
  proof (intro allI impI)
    fix xs p
    assume a: "RECENT_MESSAGES_BUFFER s = xs @ [p] \<and> now - timestamp p \<le> 10000"
    then have x: "RECENT_MESSAGES_BUFFER s = xs @ [p]"
      and r: "now - timestamp p \<le> BUFFER_TIME_WINDOW_MS"
      by (simp_all add: BUFFER_TIME_WINDOW_MS_def)
    from addToMessageBuffer_pair(1) [OF x r, of W c el]
    have 1: "\<exists>zs. RECENT_MESSAGES_BUFFER s' = zs @ [p, entry]"
      unfolding eq s1_def entry_def by simp
    have e2: "startedOn (providers W) (text p) c el s s' =
        startedOn (providers W) (text p) c el s (addToMessageBuffer W now c el s)"
      unfolding eq s1_def by (rule startedOn_fields) simp_all
    from addToMessageBuffer_pair(2) [OF x r, of W c el]
    have 2: "startedOn (providers W) (text p) c el s s'"
      unfolding e2 .
    from 1 2 show "(\<exists>zs. RECENT_MESSAGES_BUFFER s' = zs @ [p, entry]) \<and>
          startedOn (providers W) (text p) c el s s'" ..
  qed
  have self: "\<forall>f \<in> set (matchAll (\<lambda>afterWord. atLeast 5 isBase58) False c).
          16 \<le> length f \<and> length f \<le> 22 \<longrightarrow>
          (f @ f, f @ '' + '' @ f) \<in> set (sequentialCombinations c c)"
    using self_combination by blast
  have single: "length (RECENT_MESSAGES_BUFFER s') < 2 \<longrightarrow>
          processed s' = processed s \<and> foundAddresses s' = foundAddresses s \<and>
          fetched s' = fetched s \<and> asked s' = asked s \<and> pending s' = pending s"
  proof
    assume "length (RECENT_MESSAGES_BUFFER s') < 2"
    then have "length (RECENT_MESSAGES_BUFFER (addToMessageBuffer W now c el s)) < 2"
      unfolding eq s1_def by simp
    from addToMessageBuffer_single [OF this]
    show "processed s' = processed s \<and> foundAddresses s' = foundAddresses s \<and>
          fetched s' = fetched s \<and> asked s' = asked s \<and> pending s' = pending s"
      unfolding eq s1_def by simp
  qed
  have frame: "processedMessageIds s' = processedMessageIds s \<and> aiPrompt s' = aiPrompt s \<and>
       verificationResults s' = verificationResults s \<and> forwarded s' = forwarded s \<and>
       bloomSentAddresses s' = bloomSentAddresses s"
    unfolding eq s1_def by (simp add: addToMessageBuffer_frame)
  from w l two self single frame show ?thesis
    unfolding Let_def c_def [symmetric] entry_def [symmetric] s'_def [symmetric] by blast
qed

lemma afterFirst_fields:
  "RECENT_MESSAGES_BUFFER afterFirst =
     [] @ [\<lparr>text = halfAddress, element = someElement, timestamp = 1000\<rparr>]"
  "processed afterFirst = []" "fetched afterFirst = []" "foundAddresses afterFirst = {}"
  by code_simp+

lemma halfAddress_twice:
  "sequentialCombinations halfAddress halfAddress =
     [(halfAddress @ halfAddress, halfAddress @ '' + '' @ halfAddress)]"
  "sanitizeAddress (halfAddress @ halfAddress) = Some (halfAddress @ halfAddress)"
  "requests (fullTokenVerification (providers silent) (halfAddress @ halfAddress)) =
     [(VerifyJupiterToken, halfAddress @ halfAddress), (VerifyBirdeyeToken, halfAddress @ halfAddress),
      (VerifyRegistryToken, halfAddress @ halfAddress)]"
  by code_simp+

theorem duplicate_delivery_reaches_buffers_witness:
  "getMessageId ''g2'' someElement \<in> processedMessageIds afterFirst \<and>
   (\<exists>zs. RECENT_MESSAGES_BUFFER
      (checkForSolanaAddresses silent 2000 ''g2'' (Some halfAddress) someElement afterFirst) =
      zs @ [\<lparr>text = halfAddress, element = someElement, timestamp = 1000\<rparr>,
            \<lparr>text = halfAddress, element = someElement, timestamp = 2000\<rparr>]) \<and>
   processed (checkForSolanaAddresses silent 2000 ''g2'' (Some halfAddress) someElement afterFirst) =
     [\<lparr>argAddress = halfAddress @ halfAddress, argMessageText = halfAddress @ '' + '' @ halfAddress,
       argElement = someElement, argIsFromAI = True\<rparr>] \<and>
   foundAddresses (checkForSolanaAddresses silent 2000 ''g2'' (Some halfAddress) someElement afterFirst) =
     {halfAddress @ halfAddress} \<and>
   fetched (checkForSolanaAddresses silent 2000 ''g2'' (Some halfAddress) someElement afterFirst) =
     [(VerifyJupiterToken, halfAddress @ halfAddress), (VerifyBirdeyeToken, halfAddress @ halfAddress),
      (VerifyRegistryToken, halfAddress @ halfAddress)]"
proof -
  let ?s' = "checkForSolanaAddresses silent 2000 ''g2'' (Some halfAddress) someElement afterFirst"
  let ?p = "\<lparr>text = halfAddress, element = someElement, timestamp = 1000\<rparr>"
  have h1: "5 \<le> length halfAddress"
    by (simp add: halfAddress_def)
  have c: "cleanMessageText halfAddress = halfAddress"
    by code_simp
  have h2: "cleanMessageText halfAddress \<noteq> []"
    by code_simp
  have h3: "getMessageId ''g2'' someElement \<in> processedMessageIds afterFirst"
    by code_simp
  note T = duplicate_delivery_reaches_buffers [OF h1 h2 h3, where W = silent and now = 2000,
      unfolded Let_def c]
  from T have "RECENT_MESSAGES_BUFFER afterFirst = [] @ [?p] \<and> 2000 - timestamp ?p \<le> 10000 \<longrightarrow>
      (\<exists>zs. RECENT_MESSAGES_BUFFER ?s' =
         zs @ [?p, \<lparr>text = halfAddress, element = someElement, timestamp = 2000\<rparr>]) \<and>
      startedOn (providers silent) (text ?p) halfAddress someElement afterFirst ?s'"
    by blast
  with afterFirst_fields(1)
  have b: "\<exists>zs. RECENT_MESSAGES_BUFFER ?s' =
         zs @ [?p, \<lparr>text = halfAddress, element = someElement, timestamp = 2000\<rparr>]"
    and st: "startedOn (providers silent) halfAddress halfAddress someElement afterFirst ?s'"
    by simp_all
  from st have "processed ?s' =
     [\<lparr>argAddress = halfAddress @ halfAddress, argMessageText = halfAddress @ '' + '' @ halfAddress,
       argElement = someElement, argIsFromAI = True\<rparr>] \<and>
     foundAddresses ?s' = {halfAddress @ halfAddress} \<and>
     fetched ?s' =
     [(VerifyJupiterToken, halfAddress @ halfAddress), (VerifyBirdeyeToken, halfAddress @ halfAddress),
      (VerifyRegistryToken, halfAddress @ halfAddress)]"
    unfolding startedOn_def halfAddress_twice afterFirst_fields by (simp add: halfAddress_twice)
  with h3 b show ?thesis
    by blast
qed

section \<open>Properties of dispatch\<close>

lemma dispatches_refl: "dispatches s s"
  by (simp add: dispatches_def)

lemma dispatches_same:
  "forwarded s' = forwarded s \<Longrightarrow> bloomSentAddresses s' = bloomSentAddresses s \<Longrightarrow> dispatches s s'"
  by (simp add: dispatches_def)

lemma dispatches_trans:
  assumes "dispatches s s'" and "dispatches s' s''"
  shows "dispatches s s''"
proof -
  from assms(1) obtain n1 where 1: "forwarded s' = forwarded s @ n1" "distinct n1"
    "set n1 \<inter> bloomSentAddresses s = {}" "bloomSentAddresses s' = bloomSentAddresses s \<union> set n1"
    unfolding dispatches_def by blast
  from assms(2) obtain n2 where 2: "forwarded s'' = forwarded s' @ n2" "distinct n2"
    "set n2 \<inter> bloomSentAddresses s' = {}" "bloomSentAddresses s'' = bloomSentAddresses s' \<union> set n2"
    unfolding dispatches_def by blast
  have "forwarded s'' = forwarded s @ (n1 @ n2)"
    using 1 2 by simp
  moreover have "distinct (n1 @ n2)"
    using 1 2 by auto
  moreover have "set (n1 @ n2) \<inter> bloomSentAddresses s = {}"
    using 1 2 by auto
  moreover have "bloomSentAddresses s'' = bloomSentAddresses s \<union> set (n1 @ n2)"
    using 1 2 by auto
  ultimately show ?thesis
    unfolding dispatches_def by blast
qed

lemma dispatches_sendToBloomBot: "dispatches s (snd (sendToBloomBot a s))"
proof (cases "a \<in> bloomSentAddresses s")
  case True
  then show ?thesis by (simp add: sendToBloomBot_def dispatches_refl)
next
  case False
  then have "forwarded (snd (sendToBloomBot a s)) = forwarded s @ [a] \<and> distinct [a] \<and>
      set [a] \<inter> bloomSentAddresses s = {} \<and>
      bloomSentAddresses (snd (sendToBloomBot a s)) = bloomSentAddresses s \<union> set [a]"
    by (simp add: sendToBloomBot_def)
  then show ?thesis
    unfolding dispatches_def by blast
qed

lemma sendToBloomBot_frame:
  "processed (snd (sendToBloomBot a s)) = processed s"
  "asked (snd (sendToBloomBot a s)) = asked s"
  "aiPrompt (snd (sendToBloomBot a s)) = aiPrompt s"
  "foundAddresses (snd (sendToBloomBot a s)) = foundAddresses s"
  by (simp_all add: sendToBloomBot_def)

lemma processAddress_processed:
  "processed (snd (processAddress net a mt el ai s)) =
     processed s @ [\<lparr>argAddress = a, argMessageText = mt, argElement = el, argIsFromAI = ai\<rparr>]"
  by (simp add: processAddress_def Let_def sendToBloomBot_frame split: option.split)

lemma processAddress_asked: "asked (snd (processAddress net a mt el ai s)) = asked s"
  by (simp add: processAddress_def Let_def sendToBloomBot_frame split: option.split)

lemma processAddress_aiPrompt: "aiPrompt (snd (processAddress net a mt el ai s)) = aiPrompt s"
  by (simp add: processAddress_def Let_def sendToBloomBot_frame split: option.split)

lemma processAddress_dispatches: "dispatches s (snd (processAddress net a mt el ai s))"
proof -
  let ?s0 = "s\<lparr>processed := processed s @
                  [\<lparr>argAddress = a, argMessageText = mt, argElement = el, argIsFromAI = ai\<rparr>]\<rparr>"
  have 0: "dispatches s ?s0"
    by (simp add: dispatches_same)
  show ?thesis
  proof (cases "sanitizeAddress a")
    case None
    then show ?thesis using 0 by (simp add: processAddress_def Let_def)
  next
    case (Some c)
    show ?thesis
    proof (cases "if c \<in> foundAddresses ?s0 then verificationResults ?s0 c else None")
      case (Some e)
      with \<open>sanitizeAddress a = Some c\<close> show ?thesis
        using 0 by (simp add: processAddress_def Let_def)
    next
      case None
      let ?out = "fullTokenVerification net c"
      let ?s2 = "?s0\<lparr>foundAddresses := insert c (foundAddresses ?s0),
                    fetched := fetched ?s0 @ requests ?out,
                    verificationResults := (verificationResults ?s0)(c \<mapsto> result ?out)\<rparr>"
      have 2: "dispatches s ?s2"
        by (simp add: dispatches_same)
      have 3: "dispatches ?s2 (snd (sendToBloomBot c ?s2))"
        by (rule dispatches_sendToBloomBot)
      have "snd (processAddress net a mt el ai s) =
              (if autoSendToBloom ?s2 then snd (sendToBloomBot c ?s2) else ?s2)"
        using None \<open>sanitizeAddress a = Some c\<close> by (simp add: processAddress_def Let_def)
      then show ?thesis
        using 2 3 dispatches_trans by presburger
    qed
  qed
qed

lemma detect_state:
  "snd (detectSplitAddressesWithAI W t prompt model s) = s \<or>
   snd (detectSplitAddressesWithAI W t prompt model s) =
     s\<lparr>asked := asked s @ [\<lparr>chatModel = model, systemPrompt = prompt,
        userContent = ''Analyze this text for potential split Solana addresses: '' @
          [doubleQuote] @ t @ [doubleQuote]\<rparr>]\<rparr>"
  by (simp add: detectSplitAddressesWithAI_def Let_def split: option.split)

lemma dispatches_detect: "dispatches s (snd (detectSplitAddressesWithAI W t prompt model s))"
  by (rule dispatches_same)
    (simp_all add: detectSplitAddressesWithAI_def Let_def split: option.split)

lemma dispatches_processNew: "dispatches s (processNew net el cs s)"
proof (induction cs arbitrary: s)
  case Nil
  then show ?case by (simp add: dispatches_refl)
next
  case (Cons c cs)
  obtain a mt where c: "c = (a, mt)"
    by (cases c)
  let ?s1 = "if a \<in> foundAddresses s then s else snd (processAddress net a mt el True s)"
  have "dispatches s ?s1"
    by (simp add: dispatches_refl processAddress_dispatches)
  moreover have "dispatches ?s1 (processNew net el cs ?s1)"
    by (rule Cons.IH)
  ultimately have "dispatches s (processNew net el cs ?s1)"
    by (rule dispatches_trans)
  then show ?case
    unfolding c by simp
qed

lemma dispatches_processEach: "dispatches s (snd (processEach net t el ai as found s))"
proof (induction as arbitrary: found s)
  case Nil
  then show ?case by (simp add: dispatches_refl)
next
  case (Cons a as)
  obtain res s1 where p: "processAddress net a t el ai s = (res, s1)"
    by (cases "processAddress net a t el ai s")
  then have "dispatches s s1"
    using processAddress_dispatches [of s net a t el ai] by simp
  moreover have "dispatches s1 (snd (processEach net t el ai as (found \<or> isVerified res) s1))"
    by (rule Cons.IH)
  ultimately have "dispatches s (snd (processEach net t el ai as (found \<or> isVerified res) s1))"
    by (rule dispatches_trans)
  then show ?case
    using p by simp
qed

lemma dispatches_tryReconstructions: "dispatches s (snd (tryReconstructions net t el as s))"
proof (induction as arbitrary: s)
  case Nil
  then show ?case by (simp add: dispatches_refl)
next
  case (Cons a as)
  let ?address = "if includesText ''pump'' t \<and> \<not> endsWith ''pump'' a then a @ ''pump'' else a"
  obtain res s1 where p: "processAddress net ?address t el True s = (res, s1)"
    by (cases "processAddress net ?address t el True s")
  then have 1: "dispatches s s1"
    using processAddress_dispatches [of s net ?address t el True] by simp
  have 2: "dispatches s1 (snd (tryReconstructions net t el as s1))"
    by (rule Cons.IH)
  show ?case
  proof (cases "isVerified res")
    case True
    with p 1 show ?thesis by (simp add: Let_def)
  next
    case False
    with p dispatches_trans [OF 1 2] show ?thesis by (simp add: Let_def)
  qed
qed

lemma dispatches_reconstructWithAI: "dispatches s (reconstructWithAI W t el n s)"
proof (induction n arbitrary: s)
  case 0
  then show ?case by (simp add: dispatches_refl)
next
  case (Suc n)
  obtain answers s1 where d: "detectSplitAddressesWithAI W t (aiPrompt s) ''gpt-3.5-turbo'' s = (answers, s1)"
    by (cases "detectSplitAddressesWithAI W t (aiPrompt s) ''gpt-3.5-turbo'' s")
  then have 1: "dispatches s s1"
    using dispatches_detect [of s W t "aiPrompt s" "''gpt-3.5-turbo''"] by simp
  obtain found s2 where r: "tryReconstructions (providers W) t el answers s1 = (found, s2)"
    by (cases "tryReconstructions (providers W) t el answers s1")
  then have 2: "dispatches s1 s2"
    using dispatches_tryReconstructions [of s1 "providers W" t el answers] by simp
  let ?partials = "matchAll (\<lambda>afterWord. between 5 10 isBase58) False t"
  let ?s3 = "if ?partials \<noteq> [] then s2\<lparr>aiPrompt := aiPrompt s2 @ escalation ?partials\<rparr> else s2"
  have 3: "dispatches s2 ?s3"
    by (simp add: dispatches_same dispatches_refl)
  have 4: "dispatches ?s3 (reconstructWithAI W t el n ?s3)"
    by (rule Suc.IH)
  have 12: "dispatches s s2"
    by (rule dispatches_trans [OF 1 2])
  have "dispatches s (reconstructWithAI W t el n ?s3)"
    by (rule dispatches_trans [OF 12 dispatches_trans [OF 3 4]])
  with 1 12 d r show ?case
    by (simp add: Let_def)
qed

lemma dispatches_extractAddresses: "dispatches s (extractAddresses W t el s)"
proof -
  obtain f1 s1 where a: "processDirectMatches W t el s = (f1, s1)"
    by (cases "processDirectMatches W t el s")
  then have 1: "dispatches s s1"
    using dispatches_processEach [of s "providers W" t el False "matchAll solanaAddressRegex False t" False]
    by (simp add: processDirectMatches_def)
  obtain f2 s2 where b: "processEach (providers W) t el True (partCombinations t) False s1 = (f2, s2)"
    by (cases "processEach (providers W) t el True (partCombinations t) False s1")
  then have 2: "dispatches s1 s2"
    using dispatches_processEach [of s1 "providers W" t el True "partCombinations t" False] by simp
  have 3: "dispatches s2 (reconstructWithAI W t el 3 s2)"
    by (rule dispatches_reconstructWithAI)
  have 12: "dispatches s s2"
    by (rule dispatches_trans [OF 1 2])
  have 123: "dispatches s (reconstructWithAI W t el 3 s2)"
    by (rule dispatches_trans [OF 12 3])
  show ?thesis
  proof (cases "\<not> f1 \<and> hasSignal t")
    case True
    with a b 12 123 show ?thesis
      by (simp add: extractAddresses_def)
  next
    case False
    with a 1 show ?thesis
      by (auto simp: extractAddresses_def)
  qed
qed

lemma dispatches_checkSequentialMessages: "dispatches s (checkSequentialMessages W s)"
  by (simp add: dispatches_same checkSequentialMessages_frame)

lemma dispatches_finishProcessAddress: "dispatches s (snd (finishProcessAddress net a s))"
proof -
  let ?s2 = "s\<lparr>verificationResults :=
      (verificationResults s)(a \<mapsto> result (fullTokenVerification net a))\<rparr>"
  have 1: "dispatches s ?s2"
    by (simp add: dispatches_same)
  have 2: "dispatches ?s2 (snd (sendToBloomBot a ?s2))"
    by (rule dispatches_sendToBloomBot)
  from 1 dispatches_trans [OF 1 2] show ?thesis
    by (simp add: finishProcessAddress_def Let_def)
qed

lemma dispatches_resumeNew: "dispatches s (resumeNew net el cs s)"
proof (induction cs arbitrary: s)
  case Nil
  then show ?case by (simp add: dispatches_refl)
next
  case (Cons c cs)
  obtain a mt where c: "c = (a, mt)"
    by (cases c)
  show ?case
  proof (cases "a \<in> foundAddresses s")
    case True
    with c Cons.IH [of s] show ?thesis
      by simp
  next
    case False
    show ?thesis
    proof (cases el)
      case None
      with False c show ?thesis
        by (simp add: dispatches_refl)
    next
      case (Some e)
      let ?s1 = "snd (processAddress net a mt e True s)"
      have "dispatches s ?s1"
        by (rule processAddress_dispatches)
      moreover have "dispatches ?s1 (resumeNew net el cs ?s1)"
        by (rule Cons.IH)
      ultimately have "dispatches s (resumeNew net el cs ?s1)"
        by (rule dispatches_trans)
      with False c Some show ?thesis
        by simp
    qed
  qed
qed

lemma dispatches_resumeSequentialCheck: "dispatches s (resumeSequentialCheck W task s)"
proof (cases "waitingFor task")
  case (ChatAnswer n request)
  then show ?thesis
    by (simp add: resumeSequentialCheck_def dispatches_refl dispatches_resumeNew
        split: option.splits)
next
  case (AddressResult reached)
  define s1 where "s1 = (case reached of
      Verifying cleanAddress \<Rightarrow> snd (finishProcessAddress (providers W) cleanAddress s)
    | _ \<Rightarrow> s)"
  define s2 where "s2 = resumeNew (providers W) (newestElement s1) (untried task) s1"
  obtain answers s3 where d:
    "detectSplitAddressesWithAI W (pairText task) twoMessagePrompt ''gpt-4'' s2 = (answers, s3)"
    by (cases "detectSplitAddressesWithAI W (pairText task) twoMessagePrompt ''gpt-4'' s2")
  have 1: "dispatches s s1"
    unfolding s1_def by (cases reached) (simp_all add: dispatches_refl dispatches_finishProcessAddress)
  have 2: "dispatches s1 s2"
    unfolding s2_def by (rule dispatches_resumeNew)
  have 3: "dispatches s2 s3"
    using d dispatches_detect [of s2 W "pairText task" twoMessagePrompt "''gpt-4''"] by simp
  have 4: "dispatches s3 (resumeNew (providers W) (newestElement s3)
      (map (\<lambda>address. (address, pairText task)) answers) s3)"
    by (rule dispatches_resumeNew)
  have "dispatches s (resumeNew (providers W) (newestElement s3)
      (map (\<lambda>address. (address, pairText task)) answers) s3)"
    by (rule dispatches_trans [OF dispatches_trans [OF dispatches_trans [OF 1 2] 3] 4])
  then show ?thesis
    using AddressResult d unfolding s1_def s2_def
    by (simp add: resumeSequentialCheck_def Let_def)
qed

lemma dispatches_scanWindowWithAI: "dispatches s (scanWindowWithAI W s)"
proof -
  let ?s' = "s\<lparr>asked := asked s @ [windowRequest s]\<rparr>"
  have 1: "dispatches s ?s'"
    by (simp add: dispatches_same)
  show ?thesis
  proof (cases "assistant W (length (asked s)) (windowRequest s)")
    case None
    with 1 show ?thesis by (simp add: scanWindowWithAI_def Let_def)
  next
    case (Some content)
    have "dispatches ?s' (processNew (providers W) (element (messageWindow s ! 0))
               (map (\<lambda>address. (address, windowText s)) (keepAddressLines content)) ?s')"
      by (rule dispatches_processNew)
    from dispatches_trans [OF 1 this] Some show ?thesis
      by (simp add: scanWindowWithAI_def Let_def)
  qed
qed

lemma dispatches_checkMessageWindowForAddresses:
  "dispatches s (checkMessageWindowForAddresses W s)"
  by (simp add: checkMessageWindowForAddresses_def Let_def dispatches_refl
      dispatches_scanWindowWithAI processAddress_dispatches)

lemma dispatches_checkForSolanaAddresses:
  "dispatches s (checkForSolanaAddresses W now generated textArg el s)"
proof (cases "\<exists>t. textArg = Some t \<and> \<not> length t < 5 \<and> cleanMessageText t \<noteq> []")
  case False
  then have "checkForSolanaAddresses W now generated textArg el s = s"
    using ignored_absent ignored_short ignored_empty by (cases textArg) auto
  then show ?thesis by (simp add: dispatches_refl)
next
  case True
  then obtain t where t: "textArg = Some t" "\<not> length t < 5" "cleanMessageText t \<noteq> []"
    by blast
  then have tn: "t \<noteq> []"
    by auto
  let ?c = "cleanMessageText t"
  let ?s2 = "(addToMessageBuffer W now ?c el s)\<lparr>messageWindow :=
      pushWindow \<lparr>text = ?c, element = el, timestamp = now\<rparr> (messageWindow s)\<rparr>"
  let ?s3 = "?s2\<lparr>processedMessageIds := insert (getMessageId generated el) (processedMessageIds s)\<rparr>"
  have 2: "dispatches s ?s2"
    by (simp add: dispatches_same addToMessageBuffer_frame)
  have 3: "dispatches ?s2 ?s3"
    by (simp add: dispatches_same)
  have 4: "dispatches ?s3 (extractAddresses W ?c el ?s3)"
    by (rule dispatches_extractAddresses)
  have "checkForSolanaAddresses W now generated textArg el s =
      (if getMessageId generated el \<in> processedMessageIds s then ?s2
       else extractAddresses W ?c el ?s3)"
    using t tn by (simp add: checkForSolanaAddresses_def Let_def addToMessageBuffer_frame)
  with 2 dispatches_trans [OF 2 dispatches_trans [OF 3 4]] show ?thesis
    by simp
qed

lemma dispatches_resumes: "dispatches s (step (Resumes W i) s)"
proof (cases "i < length (pending s)")
  case True
  let ?s = "s\<lparr>pending := take i (pending s) @ drop (Suc i) (pending s)\<rparr>"
  have "dispatches s ?s"
    by (simp add: dispatches_same)
  moreover have "dispatches ?s (resumeSequentialCheck W (pending s ! i) ?s)"
    by (rule dispatches_resumeSequentialCheck)
  ultimately have "dispatches s (resumeSequentialCheck W (pending s ! i) ?s)"
    by (rule dispatches_trans)
  with True show ?thesis
    by simp
next
  case False
  then show ?thesis
    by (simp add: dispatches_refl)
qed

lemma dispatches_step: "dispatches s (step e s)"
proof (cases e)
  case (Resumes W i)
  then show ?thesis
    using dispatches_resumes [of s W i] by simp
qed (simp_all add: dispatches_checkForSolanaAddresses
      dispatches_checkMessageWindowForAddresses dispatches_sendToBloomBot dispatches_same)

lemma dispatches_run: "dispatches s (run events s)"
proof (induction events arbitrary: s)
  case Nil
  then show ?case by (simp add: run_def dispatches_refl)
next
  case (Cons e es)
  have "dispatches s (step e s)"
    by (rule dispatches_step)
  moreover have "dispatches (step e s) (run es (step e s))"
    by (rule Cons.IH)
  ultimately have "dispatches s (run es (step e s))"
    by (rule dispatches_trans)
  then show ?case
    by (simp add: run_def)
qed

lemma distinct_count_list: "distinct xs \<Longrightarrow> count_list xs a \<le> 1"
  by (induction xs) (auto simp: count_list_0_iff)

lemma run_append: "run (es @ es') s = run es' (run es s)"
  by (simp add: run_def)

text \<open>
  C4, as the specification words it: a later call for an address already dispatched
  returns \<^verbatim>\<open>false\<close>. The second call of \<^verbatim>\<open>sendToBloomBot\<close> for the sample address
  returns \<^verbatim>\<open>undefined\<close>, as the first one does.
\<close>

theorem gate_return_counterexample:
  "sampleAddress \<in> bloomSentAddresses (snd (sendToBloomBot sampleAddress (initial True))) \<and>
   fst (sendToBloomBot sampleAddress (snd (sendToBloomBot sampleAddress (initial True)))) \<noteq>
     Boolean False"
  by (simp add: sendToBloomBot_def initial_def)

text \<open>
  C4, amended. Whatever happens to the scanner from its start (messages arriving, twice
  or more, background checks, window scans, clicks on Bloom buttons, changes of the
  auto-send setting), an address is forwarded to the background script at most once. The
  first call of \<^verbatim>\<open>sendToBloomBot\<close> for an address adds it to the sent set and
  forwards it; a call for an address in the sent set changes nothing, and from then on
  no event forwards that address again. The function returns \<^verbatim>\<open>undefined\<close> on every call.
\<close>

theorem at_most_once_forwarding:
  "count_list (forwarded (run events (initial autoSend))) address \<le> 1 \<and>
   (address \<notin> bloomSentAddresses s \<longrightarrow>
      sendToBloomBot address s =
        (Undefined, s\<lparr>bloomSentAddresses := insert address (bloomSentAddresses s),
                      forwarded := forwarded s @ [address]\<rparr>)) \<and>
   (address \<in> bloomSentAddresses s \<longrightarrow>
      sendToBloomBot address s = (Undefined, s) \<and>
      address \<in> bloomSentAddresses (run events s) \<and>
      count_list (forwarded (run events s)) address = count_list (forwarded s) address)"
proof -
  from dispatches_run [of "initial autoSend" events]
  have "distinct (forwarded (run events (initial autoSend)))"
    by (auto simp: dispatches_def initial_def)
  then have 1: "count_list (forwarded (run events (initial autoSend))) address \<le> 1"
    by (rule distinct_count_list)
  have 2: "address \<notin> bloomSentAddresses s \<longrightarrow>
      sendToBloomBot address s =
        (Undefined, s\<lparr>bloomSentAddresses := insert address (bloomSentAddresses s),
                      forwarded := forwarded s @ [address]\<rparr>)"
    by (simp add: sendToBloomBot_def)
  have 3: "address \<in> bloomSentAddresses s \<longrightarrow>
      sendToBloomBot address s = (Undefined, s) \<and>
      address \<in> bloomSentAddresses (run events s) \<and>
      count_list (forwarded (run events s)) address = count_list (forwarded s) address"
  proof
    assume a: "address \<in> bloomSentAddresses s"
    from dispatches_run [of s events] obtain new
      where n: "forwarded (run events s) = forwarded s @ new"
        "set new \<inter> bloomSentAddresses s = {}"
        "bloomSentAddresses (run events s) = bloomSentAddresses s \<union> set new"
      unfolding dispatches_def by blast
    from a n(2) have "address \<notin> set new"
      by blast
    then have "count_list new address = 0"
      by (simp add: count_list_0_iff)
    with a n show "sendToBloomBot address s = (Undefined, s) \<and>
      address \<in> bloomSentAddresses (run events s) \<and>
      count_list (forwarded (run events s)) address = count_list (forwarded s) address"
      by (simp add: sendToBloomBot_def)
  qed
  from 1 2 3 show ?thesis by blast
qed

theorem at_most_once_forwarding_witness:
  "sampleAddress \<notin> bloomSentAddresses (initial True) \<and>
   forwarded (snd (sendToBloomBot sampleAddress (initial True))) = [sampleAddress] \<and>
   sampleAddress \<in> bloomSentAddresses (run [delivery 1000] (initial True)) \<and>
   forwarded (run [delivery 1000] (initial True)) = [sampleAddress] \<and>
   count_list (forwarded (run [delivery 2000, Click sampleAddress]
     (run [delivery 1000] (initial True)))) sampleAddress = 1"
proof -
  have fresh: "sampleAddress \<notin> bloomSentAddresses (initial True)"
    by (simp add: initial_def)
  have sent: "sampleAddress \<in> bloomSentAddresses (run [delivery 1000] (initial True))"
    by code_simp
  have log: "forwarded (run [delivery 1000] (initial True)) = [sampleAddress]"
    by code_simp
  from fresh at_most_once_forwarding [of "[]" True sampleAddress "initial True"]
  have "forwarded (snd (sendToBloomBot sampleAddress (initial True))) = [sampleAddress]"
    by (simp add: initial_def)
  moreover from sent at_most_once_forwarding [of "[delivery 2000, Click sampleAddress]" True
      sampleAddress "run [delivery 1000] (initial True)"]
  have "count_list (forwarded (run [delivery 2000, Click sampleAddress]
     (run [delivery 1000] (initial True)))) sampleAddress = 1"
    by (simp add: log)
  ultimately show ?thesis
    using fresh sent log by blast
qed

section \<open>Properties of the sliding window scan\<close>

lemma testAddressShape_wellFormed: "testAddressShape s \<longleftrightarrow> wellFormed s"
  by (auto simp: testAddressShape_def wellFormed_def list_all_iff isBase58_alphabet)

text \<open>
  C5, as the specification words it: the previous message \<^verbatim>\<open>abc\<close> and a current message
  of 41 characters of the alphabet give an emitted candidate of 44 characters. The
  combination is well formed, but the current message is not shorter than 40, so the
  direct branch is not taken: with a service that returns nothing, no candidate is
  processed at all.
\<close>

theorem direct_combination_counterexample:
  "length ''abc'' = 3 \<and> length tail41 = 41 \<and> wellFormed (''abc'' @ tail41) \<and>
   length (''abc'' @ tail41) = 44 \<and>
   processed (checkMessageWindowForAddresses silent (windowOf ''abc'' tail41)) = []"
  by code_simp

lemma scan_unanswered:
  "assistant W (length (asked s)) (windowRequest s) = None \<Longrightarrow>
     processed (scanWindowWithAI W s) = processed s"
  by (simp add: scanWindowWithAI_def Let_def)

lemma window_direct:
  assumes "2 \<le> length (messageWindow s)"
    and "length (text (messageWindow s ! 1)) < 20" and "length (text (messageWindow s ! 0)) < 40"
    and "wellFormed (text (messageWindow s ! 1) @ text (messageWindow s ! 0))"
  shows "checkMessageWindowForAddresses W s =
     (if text (messageWindow s ! 1) @ text (messageWindow s ! 0) \<notin> foundAddresses s
      then snd (processAddress (providers W) (text (messageWindow s ! 1) @ text (messageWindow s ! 0))
             (text (messageWindow s ! 1) @ '' + '' @ text (messageWindow s ! 0))
             (element (messageWindow s ! 0)) True s)
      else s)"
proof -
  from assms(4) have "testAddressShape (text (messageWindow s ! 1) @ text (messageWindow s ! 0))"
    by (simp add: testAddressShape_wellFormed)
  moreover from assms(4)
  have "32 \<le> length (text (messageWindow s ! 1) @ text (messageWindow s ! 0)) \<and>
        length (text (messageWindow s ! 1) @ text (messageWindow s ! 0)) \<le> 44"
    by (simp add: wellFormed_def)
  ultimately show ?thesis
    using assms(1-3) by (simp add: checkMessageWindowForAddresses_def Let_def)
qed

lemma window_indirect:
  assumes "2 \<le> length (messageWindow s)"
    and "40 \<le> length (text (messageWindow s ! 0)) \<or> 20 \<le> length (text (messageWindow s ! 1)) \<or>
         45 \<le> length (text (messageWindow s ! 1) @ text (messageWindow s ! 0)) \<or>
         \<not> wellFormed (text (messageWindow s ! 1) @ text (messageWindow s ! 0))"
  shows "checkMessageWindowForAddresses W s = scanWindowWithAI W s"
proof -
  from assms(2)
  have nc: "\<not> (length (text (messageWindow s ! 1)) < 20 \<and> length (text (messageWindow s ! 0)) < 40 \<and>
      32 \<le> length (text (messageWindow s ! 1) @ text (messageWindow s ! 0)) \<and>
      length (text (messageWindow s ! 1) @ text (messageWindow s ! 0)) \<le> 44 \<and>
      testAddressShape (text (messageWindow s ! 1) @ text (messageWindow s ! 0)))"
    unfolding testAddressShape_wellFormed by (auto simp: wellFormed_def)
  from assms(1) have nl: "\<not> length (messageWindow s) < 2"
    by simp
  show ?thesis
    unfolding checkMessageWindowForAddresses_def Let_def by (simp only: nc nl if_False)
qed

text \<open>
  C5, amended. With at least two messages in the window: when the previous message is
  shorter than 20 characters, the current one shorter than 40, and their concatenation is
  well formed and not yet among the found addresses, the concatenation is passed to
  \<^verbatim>\<open>processAddress\<close> once, marked as reconstructed and with the message text
  "previous + current", and the service is not asked; when it is already among the
  found addresses nothing happens. When the current message has 40 characters or more, or
  the previous one 20 or more, or the concatenation has 45 characters or more or is
  otherwise not well formed, there is no direct candidate: the window goes to the
  service, and if the service returns nothing, no candidate is processed.
\<close>

theorem direct_combination:
  "2 \<le> length (messageWindow s) \<Longrightarrow>
   (let currentMsg = text (messageWindow s ! 0);
        previousMsg = text (messageWindow s ! 1);
        combined = previousMsg @ currentMsg;
        s' = checkMessageWindowForAddresses W s
    in (length previousMsg < 20 \<and> length currentMsg < 40 \<and> wellFormed combined \<and>
        combined \<notin> foundAddresses s \<longrightarrow>
          processed s' = processed s @
            [\<lparr>argAddress = combined, argMessageText = previousMsg @ '' + '' @ currentMsg,
              argElement = element (messageWindow s ! 0), argIsFromAI = True\<rparr>] \<and>
          asked s' = asked s) \<and>
       (length previousMsg < 20 \<and> length currentMsg < 40 \<and> wellFormed combined \<and>
        combined \<in> foundAddresses s \<longrightarrow> s' = s) \<and>
       (40 \<le> length currentMsg \<or> 20 \<le> length previousMsg \<or> 45 \<le> length combined \<or>
        \<not> wellFormed combined \<longrightarrow> s' = scanWindowWithAI W s) \<and>
       (assistant W (length (asked s)) (windowRequest s) = None \<longrightarrow>
          processed (scanWindowWithAI W s) = processed s))"
proof -
  assume w: "2 \<le> length (messageWindow s)"
  define currentMsg where "currentMsg = text (messageWindow s ! 0)"
  define previousMsg where "previousMsg = text (messageWindow s ! 1)"
  define s' where "s' = checkMessageWindowForAddresses W s"
  have 1: "length previousMsg < 20 \<and> length currentMsg < 40 \<and> wellFormed (previousMsg @ currentMsg) \<and>
        previousMsg @ currentMsg \<notin> foundAddresses s \<longrightarrow>
          processed s' = processed s @
            [\<lparr>argAddress = previousMsg @ currentMsg, argMessageText = previousMsg @ '' + '' @ currentMsg,
              argElement = element (messageWindow s ! 0), argIsFromAI = True\<rparr>] \<and>
          asked s' = asked s"
    unfolding s'_def currentMsg_def previousMsg_def
    using window_direct [OF w, of W] by (simp add: processAddress_processed processAddress_asked)
  have 2: "length previousMsg < 20 \<and> length currentMsg < 40 \<and> wellFormed (previousMsg @ currentMsg) \<and>
        previousMsg @ currentMsg \<in> foundAddresses s \<longrightarrow> s' = s"
    unfolding s'_def currentMsg_def previousMsg_def
    using window_direct [OF w, of W] by simp
  have 3: "40 \<le> length currentMsg \<or> 20 \<le> length previousMsg \<or> 45 \<le> length (previousMsg @ currentMsg) \<or>
        \<not> wellFormed (previousMsg @ currentMsg) \<longrightarrow> s' = scanWindowWithAI W s"
    unfolding s'_def currentMsg_def previousMsg_def
    using window_indirect [OF w, of W] by blast
  have 4: "assistant W (length (asked s)) (windowRequest s) = None \<longrightarrow>
          processed (scanWindowWithAI W s) = processed s"
    using scan_unanswered by blast
  from 1 2 3 4 show ?thesis
    unfolding Let_def currentMsg_def [symmetric] previousMsg_def [symmetric] s'_def [symmetric]
    by blast
qed

theorem direct_combination_witness:
  "2 \<le> length (messageWindow (windowOf head5 tail39)) \<and> head5 @ tail39 = sampleAddress \<and>
   length head5 = 5 \<and> length tail39 = 39 \<and>
   sampleAddress \<notin> foundAddresses (windowOf head5 tail39) \<and>
   processed (checkMessageWindowForAddresses silent (windowOf head5 tail39)) =
     [\<lparr>argAddress = sampleAddress, argMessageText = head5 @ '' + '' @ tail39,
       argElement = someElement, argIsFromAI = True\<rparr>] \<and>
   asked (checkMessageWindowForAddresses silent (windowOf head5 tail39)) = [] \<and>
   length (''abcdef'' @ tail39) = 45 \<and>
   processed (checkMessageWindowForAddresses silent (windowOf ''abcdef'' tail39)) = []"
proof -
  have l: "2 \<le> length (messageWindow (windowOf head5 tail39))"
    by (simp add: windowOf_def)
  have c: "head5 @ tail39 = sampleAddress"
    by (simp add: head5_def tail39_def sampleAddress_def)
  have n: "length head5 = 5 \<and> length tail39 = 39"
    by (simp add: head5_def tail39_def)
  have f: "sampleAddress \<notin> foundAddresses (windowOf head5 tail39)"
    by (simp add: windowOf_def initial_def)
  have e: "processed (windowOf head5 tail39) = [] \<and> asked (windowOf head5 tail39) = []"
    by (simp add: windowOf_def initial_def)
  from direct_combination [OF l, of silent] f n wellFormed_sampleAddress e
  have 1: "processed (checkMessageWindowForAddresses silent (windowOf head5 tail39)) =
       [\<lparr>argAddress = sampleAddress, argMessageText = head5 @ '' + '' @ tail39,
         argElement = someElement, argIsFromAI = True\<rparr>] \<and>
     asked (checkMessageWindowForAddresses silent (windowOf head5 tail39)) = []"
    by (simp add: Let_def windowOf_def c)
  have l': "2 \<le> length (messageWindow (windowOf ''abcdef'' tail39))"
    by (simp add: windowOf_def)
  have q: "assistant silent (length (asked (windowOf ''abcdef'' tail39)))
      (windowRequest (windowOf ''abcdef'' tail39)) = None"
    by (simp add: silent_def)
  have p: "processed (windowOf ''abcdef'' tail39) = []"
    by (simp add: windowOf_def initial_def)
  have m: "length (''abcdef'' @ tail39) = 45"
    by (simp add: tail39_def)
  from direct_combination [OF l', of silent] q p m
  have 2: "processed (checkMessageWindowForAddresses silent (windowOf ''abcdef'' tail39)) = []"
    by (simp add: Let_def windowOf_def)
  from l c n f 1 m 2 show ?thesis
    by blast
qed

section \<open>Properties of the reconstruction fallback\<close>

lemma detect_eq:
  "detectSplitAddressesWithAI W t prompt ''gpt-3.5-turbo'' s =
     (if length t < 20 then ([], s)
      else ((case assistant W (length (asked s)) (reconstructionRequest prompt t) of
               None \<Rightarrow> [] | Some content \<Rightarrow> keepAddressLines content),
            s\<lparr>asked := asked s @ [reconstructionRequest prompt t]\<rparr>))"
  by (simp add: detectSplitAddressesWithAI_def reconstructionRequest_def Let_def split: option.split)

lemma processEach_asked: "asked (snd (processEach net t el ai as found s)) = asked s"
proof (induction as arbitrary: found s)
  case Nil
  then show ?case by simp
next
  case (Cons a as)
  obtain res s1 where p: "processAddress net a t el ai s = (res, s1)"
    by (cases "processAddress net a t el ai s")
  then have "asked s1 = asked s"
    using processAddress_asked [of net a t el ai s] by simp
  with p Cons.IH [of "found \<or> isVerified res" s1] show ?case
    by simp
qed

lemma processEach_aiPrompt: "aiPrompt (snd (processEach net t el ai as found s)) = aiPrompt s"
proof (induction as arbitrary: found s)
  case Nil
  then show ?case by simp
next
  case (Cons a as)
  obtain res s1 where p: "processAddress net a t el ai s = (res, s1)"
    by (cases "processAddress net a t el ai s")
  then have "aiPrompt s1 = aiPrompt s"
    using processAddress_aiPrompt [of net a t el ai s] by simp
  with p Cons.IH [of "found \<or> isVerified res" s1] show ?case
    by simp
qed

lemma tryReconstructions_asked: "asked (snd (tryReconstructions net t el as s)) = asked s"
proof (induction as arbitrary: s)
  case Nil
  then show ?case by simp
next
  case (Cons a as)
  let ?address = "if includesText ''pump'' t \<and> \<not> endsWith ''pump'' a then a @ ''pump'' else a"
  obtain res s1 where p: "processAddress net ?address t el True s = (res, s1)"
    by (cases "processAddress net ?address t el True s")
  then have "asked s1 = asked s"
    using processAddress_asked [of net ?address t el True s] by simp
  with p Cons.IH [of s1] show ?case
    by (simp add: Let_def)
qed

lemma tryReconstructions_aiPrompt: "aiPrompt (snd (tryReconstructions net t el as s)) = aiPrompt s"
proof (induction as arbitrary: s)
  case Nil
  then show ?case by simp
next
  case (Cons a as)
  let ?address = "if includesText ''pump'' t \<and> \<not> endsWith ''pump'' a then a @ ''pump'' else a"
  obtain res s1 where p: "processAddress net ?address t el True s = (res, s1)"
    by (cases "processAddress net ?address t el True s")
  then have "aiPrompt s1 = aiPrompt s"
    using processAddress_aiPrompt [of net ?address t el True s] by simp
  with p Cons.IH [of s1] show ?case
    by (simp add: Let_def)
qed

lemma processAddress_buffer:
  "RECENT_MESSAGES_BUFFER (snd (processAddress net a mt el ai s)) = RECENT_MESSAGES_BUFFER s"
  by (simp add: processAddress_def sendToBloomBot_def Let_def split: option.split)

lemma processEach_buffer:
  "RECENT_MESSAGES_BUFFER (snd (processEach net t el ai as found s)) = RECENT_MESSAGES_BUFFER s"
proof (induction as arbitrary: found s)
  case Nil
  then show ?case by simp
next
  case (Cons a as)
  obtain res s1 where p: "processAddress net a t el ai s = (res, s1)"
    by (cases "processAddress net a t el ai s")
  then have "RECENT_MESSAGES_BUFFER s1 = RECENT_MESSAGES_BUFFER s"
    using processAddress_buffer [of net a t el ai s] by simp
  with p Cons.IH [of "found \<or> isVerified res" s1] show ?case
    by simp
qed

lemma tryReconstructions_buffer:
  "RECENT_MESSAGES_BUFFER (snd (tryReconstructions net t el as s)) = RECENT_MESSAGES_BUFFER s"
proof (induction as arbitrary: s)
  case Nil
  then show ?case by simp
next
  case (Cons a as)
  let ?address = "if includesText ''pump'' t \<and> \<not> endsWith ''pump'' a then a @ ''pump'' else a"
  obtain res s1 where p: "processAddress net ?address t el True s = (res, s1)"
    by (cases "processAddress net ?address t el True s")
  then have "RECENT_MESSAGES_BUFFER s1 = RECENT_MESSAGES_BUFFER s"
    using processAddress_buffer [of net ?address t el True s] by simp
  with p Cons.IH [of s1] show ?case
    by (simp add: Let_def)
qed

lemma escalated_0: "escalated t 0 = []"
  by (simp add: escalated_def)

lemma escalated_Suc: "escalated t (Suc k) = escalationFor t @ escalated t k"
  by (simp add: escalated_def)

text \<open>One round of the loop, spelt out.\<close>

lemma reconstruct_Suc:
  "reconstructWithAI W t el (Suc n) s =
     (if length t < 20 then s
      else
        (let s1 = s\<lparr>asked := asked s @ [reconstructionRequest (aiPrompt s) t]\<rparr>;
             answers = (case assistant W (length (asked s)) (reconstructionRequest (aiPrompt s) t) of
                          None \<Rightarrow> [] | Some content \<Rightarrow> keepAddressLines content)
         in if answers = [] then s1
            else if fst (tryReconstructions (providers W) t el answers s1)
            then snd (tryReconstructions (providers W) t el answers s1)
            else reconstructWithAI W t el n
                   ((snd (tryReconstructions (providers W) t el answers s1))
                      \<lparr>aiPrompt := aiPrompt s @ escalationFor t\<rparr>)))"
proof (cases "length t < 20")
  case True
  then show ?thesis by (simp add: detect_eq)
next
  case False
  let ?s1 = "s\<lparr>asked := asked s @ [reconstructionRequest (aiPrompt s) t]\<rparr>"
  let ?answers = "case assistant W (length (asked s)) (reconstructionRequest (aiPrompt s) t) of
                          None \<Rightarrow> [] | Some content \<Rightarrow> keepAddressLines content"
  obtain found s2 where r: "tryReconstructions (providers W) t el ?answers ?s1 = (found, s2)"
    by (cases "tryReconstructions (providers W) t el ?answers ?s1")
  have "aiPrompt s2 = aiPrompt ?s1"
    using tryReconstructions_aiPrompt [of "providers W" t el ?answers ?s1] r by simp
  then have p: "aiPrompt s2 = aiPrompt s"
    by simp
  have e: "(if ps \<noteq> [] then s2\<lparr>aiPrompt := aiPrompt s2 @ escalation ps\<rparr> else s2) =
           s2\<lparr>aiPrompt := aiPrompt s @ (if ps \<noteq> [] then escalation ps else [])\<rparr>" for ps
    using p by simp
  from False r show ?thesis
    by (simp add: detect_eq Let_def escalationFor_def e)
qed

declare reconstructWithAI.simps(2) [simp del]

lemma reconstructWithAI_buffer:
  "RECENT_MESSAGES_BUFFER (reconstructWithAI W t el n s) = RECENT_MESSAGES_BUFFER s"
proof (induction n arbitrary: s)
  case 0
  then show ?case by simp
next
  case (Suc n)
  show ?case
    unfolding reconstruct_Suc Let_def
    by (simp add: Suc.IH tryReconstructions_buffer)
qed

lemma extractAddresses_buffer:
  "RECENT_MESSAGES_BUFFER (extractAddresses W t el s) = RECENT_MESSAGES_BUFFER s"
proof -
  obtain f1 s1 where a: "processDirectMatches W t el s = (f1, s1)"
    by (cases "processDirectMatches W t el s")
  then have 1: "RECENT_MESSAGES_BUFFER s1 = RECENT_MESSAGES_BUFFER s"
    using processEach_buffer [of "providers W" t el False "matchAll solanaAddressRegex False t" False s]
    by (simp add: processDirectMatches_def)
  obtain f2 s2 where b: "processEach (providers W) t el True (partCombinations t) False s1 = (f2, s2)"
    by (cases "processEach (providers W) t el True (partCombinations t) False s1")
  then have 2: "RECENT_MESSAGES_BUFFER s2 = RECENT_MESSAGES_BUFFER s"
    using processEach_buffer [of "providers W" t el True "partCombinations t" False s1] 1 by simp
  from a b 1 2 show ?thesis
    by (simp add: extractAddresses_def reconstructWithAI_buffer)
qed

lemma buffered_alone:
  assumes "\<forall>m \<in> set buffer. BUFFER_TIME_WINDOW_MS < now - timestamp m"
  shows "buffered now c el buffer = [\<lparr>text = c, element = el, timestamp = now\<rparr>]"
proof -
  let ?e = "\<lparr>text = c, element = el, timestamp = now\<rparr>"
  let ?old = "\<lambda>m. now - timestamp m > BUFFER_TIME_WINDOW_MS"
  let ?bounded = "if length (buffer @ [?e]) > MAX_BUFFER_SIZE then tl (buffer @ [?e]) else buffer @ [?e]"
  have "\<exists>ys. ?bounded = ys @ [?e] \<and> set ys \<subseteq> set buffer"
  proof (cases buffer)
    case Nil
    then show ?thesis by (simp add: MAX_BUFFER_SIZE_def)
  next
    case (Cons a list)
    then show ?thesis by auto
  qed
  then obtain ys where b: "?bounded = ys @ [?e]" and sub: "set ys \<subseteq> set buffer"
    by (elim exE conjE)
  have "dropWhile ?old (ys @ [?e]) = dropWhile ?old [?e]"
  proof (rule dropWhile_append2)
    fix m
    assume "m \<in> set ys"
    with sub assms show "?old m"
      by blast
  qed
  then have "dropWhile ?old ?bounded = [?e]"
    unfolding b by simp
  then show ?thesis
    by (simp add: buffered_def Let_def)
qed

lemma attempts_none: "asked s' = asked s \<Longrightarrow> aiPrompt s' = aiPrompt s \<Longrightarrow> attempts t 0 0 s s'"
  by (simp add: attempts_def escalated_0)

lemma attempts_one:
  "asked s' = asked s @ [reconstructionRequest (aiPrompt s) t] \<Longrightarrow> aiPrompt s' = aiPrompt s \<Longrightarrow>
     attempts t (Suc 0) 0 s s'"
  by (simp add: attempts_def escalated_0)

lemma attempts_more:
  assumes "asked s3 = asked s @ [reconstructionRequest (aiPrompt s) t]"
    and "aiPrompt s3 = aiPrompt s @ escalationFor t"
    and "attempts t k j s3 s'"
  shows "attempts t (Suc k) (Suc j) s s'"
proof -
  have "map (\<lambda>i. reconstructionRequest (aiPrompt s @ escalated t i) t) [0..<Suc k] =
        reconstructionRequest (aiPrompt s) t #
        map (\<lambda>i. reconstructionRequest (aiPrompt s @ escalationFor t @ escalated t i) t) [0..<k]"
    by (simp only: map_upt_Suc escalated_0 escalated_Suc append_Nil2)
  with assms show ?thesis
    by (simp add: attempts_def escalated_Suc)
qed

lemma attempts_from:
  "asked s1 = asked s \<Longrightarrow> aiPrompt s1 = aiPrompt s \<Longrightarrow> attempts t k j s1 s' \<Longrightarrow> attempts t k j s s'"
  by (simp add: attempts_def)

lemma reconstruct_attempts:
  "\<exists>k j. j \<le> k \<and> k \<le> n \<and> attempts t k j s (reconstructWithAI W t el n s)"
proof (induction n arbitrary: s)
  case 0
  have "attempts t 0 0 s (reconstructWithAI W t el 0 s)"
    by (simp add: attempts_none)
  then show ?case by blast
next
  case (Suc n)
  let ?s1 = "s\<lparr>asked := asked s @ [reconstructionRequest (aiPrompt s) t]\<rparr>"
  let ?answers = "case assistant W (length (asked s)) (reconstructionRequest (aiPrompt s) t) of
                          None \<Rightarrow> [] | Some content \<Rightarrow> keepAddressLines content"
  let ?s2 = "snd (tryReconstructions (providers W) t el ?answers ?s1)"
  let ?s3 = "?s2\<lparr>aiPrompt := aiPrompt s @ escalationFor t\<rparr>"
  have a2: "asked ?s2 = asked s @ [reconstructionRequest (aiPrompt s) t]"
    by (simp add: tryReconstructions_asked)
  have p2: "aiPrompt ?s2 = aiPrompt s"
    by (simp add: tryReconstructions_aiPrompt)
  consider (short) "length t < 20"
    | (silent) "\<not> length t < 20" "?answers = []"
    | (found) "\<not> length t < 20" "?answers \<noteq> []"
        "fst (tryReconstructions (providers W) t el ?answers ?s1)"
    | (again) "\<not> length t < 20" "?answers \<noteq> []"
        "\<not> fst (tryReconstructions (providers W) t el ?answers ?s1)"
    by blast
  then show ?case
  proof cases
    case short
    then have "reconstructWithAI W t el (Suc n) s = s"
      by (simp add: reconstruct_Suc)
    then have "attempts t 0 0 s (reconstructWithAI W t el (Suc n) s)"
      by (simp add: attempts_none)
    then show ?thesis by blast
  next
    case silent
    then have "reconstructWithAI W t el (Suc n) s = ?s1"
      by (simp add: reconstruct_Suc Let_def)
    then have "attempts t (Suc 0) 0 s (reconstructWithAI W t el (Suc n) s)"
      by (simp add: attempts_one)
    then have "0 \<le> Suc 0 \<and> Suc 0 \<le> Suc n \<and>
        attempts t (Suc 0) 0 s (reconstructWithAI W t el (Suc n) s)"
      by simp
    then show ?thesis by blast
  next
    case found
    then have "reconstructWithAI W t el (Suc n) s = ?s2"
      by (simp add: reconstruct_Suc Let_def)
    with a2 p2 have "attempts t (Suc 0) 0 s (reconstructWithAI W t el (Suc n) s)"
      by (simp add: attempts_one)
    then have "0 \<le> Suc 0 \<and> Suc 0 \<le> Suc n \<and>
        attempts t (Suc 0) 0 s (reconstructWithAI W t el (Suc n) s)"
      by simp
    then show ?thesis by blast
  next
    case again
    then have e: "reconstructWithAI W t el (Suc n) s = reconstructWithAI W t el n ?s3"
      by (simp add: reconstruct_Suc Let_def)
    from Suc.IH [of ?s3] obtain k j
      where kj: "j \<le> k" "k \<le> n" "attempts t k j ?s3 (reconstructWithAI W t el n ?s3)"
      by blast
    have "asked ?s3 = asked s @ [reconstructionRequest (aiPrompt s) t]"
      using a2 by simp
    moreover have "aiPrompt ?s3 = aiPrompt s @ escalationFor t"
      by simp
    ultimately have "attempts t (Suc k) (Suc j) s (reconstructWithAI W t el n ?s3)"
      using kj(3) by (rule attempts_more)
    with kj(1,2) e
    have "Suc j \<le> Suc k \<and> Suc k \<le> Suc n \<and>
          attempts t (Suc k) (Suc j) s (reconstructWithAI W t el (Suc n) s)"
      by simp
    then show ?thesis by blast
  qed
qed

lemma extract_attempts:
  "\<exists>k j. j \<le> k \<and> k \<le> 3 \<and> attempts t k j s (extractAddresses W t el s)"
proof -
  obtain f1 s1 where a: "processDirectMatches W t el s = (f1, s1)"
    by (cases "processDirectMatches W t el s")
  then have 1: "asked s1 = asked s" "aiPrompt s1 = aiPrompt s"
    using processEach_asked [of "providers W" t el False "matchAll solanaAddressRegex False t" False s]
      processEach_aiPrompt [of "providers W" t el False "matchAll solanaAddressRegex False t" False s]
    by (simp_all add: processDirectMatches_def)
  obtain f2 s2 where b: "processEach (providers W) t el True (partCombinations t) False s1 = (f2, s2)"
    by (cases "processEach (providers W) t el True (partCombinations t) False s1")
  then have 2: "asked s2 = asked s" "aiPrompt s2 = aiPrompt s"
    using processEach_asked [of "providers W" t el True "partCombinations t" False s1]
      processEach_aiPrompt [of "providers W" t el True "partCombinations t" False s1] 1
    by simp_all
  consider (direct) "\<not> (\<not> f1 \<and> hasSignal t)" | (parts) "\<not> f1 \<and> hasSignal t" "f2"
    | (fallback) "\<not> f1 \<and> hasSignal t" "\<not> f2"
    by blast
  then show ?thesis
  proof cases
    case direct
    with a have "extractAddresses W t el s = s1"
      by (auto simp: extractAddresses_def)
    with 1 have "attempts t 0 0 s (extractAddresses W t el s)"
      by (simp add: attempts_none)
    then show ?thesis by blast
  next
    case parts
    with a b have "extractAddresses W t el s = s2"
      by (simp add: extractAddresses_def)
    with 2 have "attempts t 0 0 s (extractAddresses W t el s)"
      by (simp add: attempts_none)
    then show ?thesis by blast
  next
    case fallback
    with a b have e: "extractAddresses W t el s = reconstructWithAI W t el 3 s2"
      by (simp add: extractAddresses_def)
    from reconstruct_attempts [of 3 t s2 W el] obtain k j
      where kj: "j \<le> k" "k \<le> 3" "attempts t k j s2 (reconstructWithAI W t el 3 s2)"
      by blast
    from attempts_from [OF 2 kj(3)] have "attempts t k j s (extractAddresses W t el s)"
      unfolding e .
    with kj(1,2) show ?thesis by blast
  qed
qed

lemma unverified_result:
  assumes "neverConfirms net"
  shows "\<not> verified (result (fullTokenVerification net a))"
proof (cases "wellFormed a")
  case True
  from assms have "\<forall>p. \<not> confirms net a p"
    by (simp add: neverConfirms_def)
  from race_lost [OF this] True show ?thesis
    by (simp add: fullTokenVerification_wellFormed unverified_def)
next
  case False
  then show ?thesis
    by (simp add: fullTokenVerification_malformed unverified_def)
qed

lemma sendToBloomBot_results:
  "verificationResults (snd (sendToBloomBot a s)) = verificationResults s"
  "processedMessageIds (snd (sendToBloomBot a s)) = processedMessageIds s"
  by (simp_all add: sendToBloomBot_def)

lemma processAddress_ids:
  "processedMessageIds (snd (processAddress net a mt el ai s)) = processedMessageIds s"
  by (simp add: processAddress_def Let_def sendToBloomBot_results split: option.split)

lemma processAddress_fails:
  assumes "neverConfirms net" and "noneVerified s"
  shows "\<not> isVerified (fst (processAddress net a mt el ai s)) \<and>
         noneVerified (snd (processAddress net a mt el ai s))"
proof -
  have u: "\<not> verified (result (fullTokenVerification net c))" for c
    using assms(1) by (rule unverified_result)
  show ?thesis
    using assms(2) u
    by (auto simp: processAddress_def Let_def isVerified_def noneVerified_def
        sendToBloomBot_results split: option.splits if_splits)
qed

lemma processEach_fails:
  assumes "neverConfirms net"
  shows "noneVerified s \<Longrightarrow>
         fst (processEach net t el ai as found s) = found \<and>
         noneVerified (snd (processEach net t el ai as found s)) \<and>
         processedMessageIds (snd (processEach net t el ai as found s)) = processedMessageIds s"
proof (induction as arbitrary: found s)
  case Nil
  then show ?case by simp
next
  case (Cons a as)
  obtain res s1 where p: "processAddress net a t el ai s = (res, s1)"
    by (cases "processAddress net a t el ai s")
  with processAddress_fails [OF assms Cons.prems, of a t el ai]
    processAddress_ids [of net a t el ai s]
  have 1: "\<not> isVerified res" "noneVerified s1" "processedMessageIds s1 = processedMessageIds s"
    by simp_all
  from Cons.IH [OF 1(2), of found] p 1 show ?case
    by simp
qed

lemma tryReconstructions_fails:
  assumes "neverConfirms net"
  shows "noneVerified s \<Longrightarrow>
         \<not> fst (tryReconstructions net t el as s) \<and>
         noneVerified (snd (tryReconstructions net t el as s)) \<and>
         processedMessageIds (snd (tryReconstructions net t el as s)) = processedMessageIds s"
proof (induction as arbitrary: s)
  case Nil
  then show ?case by simp
next
  case (Cons a as)
  let ?address = "if includesText ''pump'' t \<and> \<not> endsWith ''pump'' a then a @ ''pump'' else a"
  obtain res s1 where p: "processAddress net ?address t el True s = (res, s1)"
    by (cases "processAddress net ?address t el True s")
  with processAddress_fails [OF assms Cons.prems, of ?address t el True]
    processAddress_ids [of net ?address t el True s]
  have 1: "\<not> isVerified res" "noneVerified s1" "processedMessageIds s1 = processedMessageIds s"
    by simp_all
  from Cons.IH [OF 1(2)] p 1 show ?case
    by (simp add: Let_def)
qed

lemma attempts_all:
  assumes "asked s3 = asked s @ [reconstructionRequest (aiPrompt s) t]"
    and "aiPrompt s3 = aiPrompt s @ escalationFor t"
    and "attempts t n n s3 s'"
  shows "attempts t (Suc n) (Suc n) s s'"
  using assms by (rule attempts_more)

lemma reconstruct_all_fail:
  assumes long: "\<not> length t < 20" and ans: "alwaysAnswers W" and nc: "neverConfirms (providers W)"
  shows "noneVerified s \<Longrightarrow>
         attempts t n n s (reconstructWithAI W t el n s) \<and>
         noneVerified (reconstructWithAI W t el n s) \<and>
         processedMessageIds (reconstructWithAI W t el n s) = processedMessageIds s"
proof (induction n arbitrary: s)
  case 0
  then show ?case by (simp add: attempts_none)
next
  case (Suc n)
  let ?s1 = "s\<lparr>asked := asked s @ [reconstructionRequest (aiPrompt s) t]\<rparr>"
  let ?answers = "case assistant W (length (asked s)) (reconstructionRequest (aiPrompt s) t) of
                          None \<Rightarrow> [] | Some content \<Rightarrow> keepAddressLines content"
  let ?s2 = "snd (tryReconstructions (providers W) t el ?answers ?s1)"
  let ?s3 = "?s2\<lparr>aiPrompt := aiPrompt s @ escalationFor t\<rparr>"
  from ans have ne: "?answers \<noteq> []"
    unfolding alwaysAnswers_def
    by (metis (mono_tags, lifting) option.case_eq_if option.simps(4) option.collapse)
  from Suc.prems have "noneVerified ?s1"
    by (simp add: noneVerified_def)
  from tryReconstructions_fails [OF nc this, of t el ?answers]
  have f: "\<not> fst (tryReconstructions (providers W) t el ?answers ?s1)"
    and v2: "noneVerified ?s2" and i2: "processedMessageIds ?s2 = processedMessageIds s"
    by simp_all
  from v2 have v3: "noneVerified ?s3"
    by (simp add: noneVerified_def)
  from long ne f have e: "reconstructWithAI W t el (Suc n) s = reconstructWithAI W t el n ?s3"
    by (simp add: reconstruct_Suc Let_def)
  have a3: "asked ?s3 = asked s @ [reconstructionRequest (aiPrompt s) t]"
    by (simp add: tryReconstructions_asked)
  have p3: "aiPrompt ?s3 = aiPrompt s @ escalationFor t"
    by simp
  from Suc.IH [OF v3]
  have ih: "attempts t n n ?s3 (reconstructWithAI W t el n ?s3)"
    "noneVerified (reconstructWithAI W t el n ?s3)"
    "processedMessageIds (reconstructWithAI W t el n ?s3) = processedMessageIds ?s3"
    by simp_all
  from attempts_all [OF a3 p3 ih(1)] ih(2,3) i2 show ?case
    unfolding e by simp
qed

lemma extract_all_fail:
  assumes long: "\<not> length t < 20" and sig: "hasSignal t"
    and ans: "alwaysAnswers W" and nc: "neverConfirms (providers W)" and nv: "noneVerified s"
  shows "attempts t 3 3 s (extractAddresses W t el s) \<and>
         noneVerified (extractAddresses W t el s) \<and>
         processedMessageIds (extractAddresses W t el s) = processedMessageIds s"
proof -
  obtain f1 s1 where a: "processDirectMatches W t el s = (f1, s1)"
    by (cases "processDirectMatches W t el s")
  with processEach_fails [OF nc nv, of t el False "matchAll solanaAddressRegex False t" False]
    processEach_asked [of "providers W" t el False "matchAll solanaAddressRegex False t" False s]
    processEach_aiPrompt [of "providers W" t el False "matchAll solanaAddressRegex False t" False s]
  have 1: "\<not> f1" "noneVerified s1" "processedMessageIds s1 = processedMessageIds s"
    "asked s1 = asked s" "aiPrompt s1 = aiPrompt s"
    by (simp_all add: processDirectMatches_def)
  obtain f2 s2 where b: "processEach (providers W) t el True (partCombinations t) False s1 = (f2, s2)"
    by (cases "processEach (providers W) t el True (partCombinations t) False s1")
  with processEach_fails [OF nc 1(2), of t el True "partCombinations t" False]
    processEach_asked [of "providers W" t el True "partCombinations t" False s1]
    processEach_aiPrompt [of "providers W" t el True "partCombinations t" False s1] 1
  have 2: "\<not> f2" "noneVerified s2" "processedMessageIds s2 = processedMessageIds s"
    "asked s2 = asked s" "aiPrompt s2 = aiPrompt s"
    by simp_all
  from a b 1(1) 2(1) sig have e: "extractAddresses W t el s = reconstructWithAI W t el 3 s2"
    by (simp add: extractAddresses_def)
  from reconstruct_all_fail [OF long ans nc 2(2), of 3 el]
  have r: "attempts t 3 3 s2 (reconstructWithAI W t el 3 s2)"
    "noneVerified (reconstructWithAI W t el 3 s2)"
    "processedMessageIds (reconstructWithAI W t el 3 s2) = processedMessageIds s2"
    by simp_all
  from attempts_from [OF 2(4,5) r(1)] r(2,3) 2(3) show ?thesis
    unfolding e by simp
qed

lemma check_new_message:
  assumes "\<not> length t < 5" and "cleanMessageText t \<noteq> []"
    and "getMessageId generated el \<notin> processedMessageIds s"
  shows "checkForSolanaAddresses W now generated (Some t) el s =
           extractAddresses W (cleanMessageText t) el
             ((addToMessageBuffer W now (cleanMessageText t) el s)
                \<lparr>messageWindow := pushWindow
                   \<lparr>text = cleanMessageText t, element = el, timestamp = now\<rparr> (messageWindow s),
                 processedMessageIds := insert (getMessageId generated el) (processedMessageIds s)\<rparr>)"
proof -
  from assms(1) have "t \<noteq> []"
    by auto
  with assms show ?thesis
    by (simp add: checkForSolanaAddresses_def Let_def addToMessageBuffer_frame)
qed

lemma check_all_fail:
  assumes "\<not> length t < 5" and "cleanMessageText t \<noteq> []"
    and "getMessageId generated el \<notin> processedMessageIds s"
    and long: "\<not> length (cleanMessageText t) < 20" and sig: "hasSignal (cleanMessageText t)"
    and ans: "alwaysAnswers W" and nc: "neverConfirms (providers W)" and nv: "noneVerified s"
    and old: "\<forall>m \<in> set (RECENT_MESSAGES_BUFFER s). BUFFER_TIME_WINDOW_MS < now - timestamp m"
  shows "attempts (cleanMessageText t) 3 3 s (checkForSolanaAddresses W now generated (Some t) el s) \<and>
         noneVerified (checkForSolanaAddresses W now generated (Some t) el s) \<and>
         processedMessageIds (checkForSolanaAddresses W now generated (Some t) el s) =
           insert (getMessageId generated el) (processedMessageIds s) \<and>
         RECENT_MESSAGES_BUFFER (checkForSolanaAddresses W now generated (Some t) el s) =
           [\<lparr>text = cleanMessageText t, element = el, timestamp = now\<rparr>]"
proof -
  let ?c = "cleanMessageText t"
  let ?s3 = "(addToMessageBuffer W now ?c el s)
                \<lparr>messageWindow := pushWindow \<lparr>text = ?c, element = el, timestamp = now\<rparr> (messageWindow s),
                 processedMessageIds := insert (getMessageId generated el) (processedMessageIds s)\<rparr>"
  have alone: "buffered now ?c el (RECENT_MESSAGES_BUFFER s) = [\<lparr>text = ?c, element = el, timestamp = now\<rparr>]"
    using old by (rule buffered_alone)
  then have eq: "addToMessageBuffer W now ?c el s =
      s\<lparr>RECENT_MESSAGES_BUFFER := [\<lparr>text = ?c, element = el, timestamp = now\<rparr>]\<rparr>"
    by (simp add: addToMessageBuffer_eq)
  have a: "asked ?s3 = asked s" "aiPrompt ?s3 = aiPrompt s"
    unfolding eq by simp_all
  have b3: "RECENT_MESSAGES_BUFFER ?s3 = [\<lparr>text = ?c, element = el, timestamp = now\<rparr>]"
    unfolding eq by simp
  from nv have nv3: "noneVerified ?s3"
    by (simp add: noneVerified_def addToMessageBuffer_frame)
  from extract_all_fail [OF long sig ans nc nv3, of el]
  have r: "attempts ?c 3 3 ?s3 (extractAddresses W ?c el ?s3)"
    "noneVerified (extractAddresses W ?c el ?s3)"
    "processedMessageIds (extractAddresses W ?c el ?s3) = processedMessageIds ?s3"
    by simp_all
  have "RECENT_MESSAGES_BUFFER (extractAddresses W ?c el ?s3) =
      [\<lparr>text = ?c, element = el, timestamp = now\<rparr>]"
    unfolding extractAddresses_buffer b3 by (rule refl)
  with attempts_from [OF a r(1)] r(2,3) show ?thesis
    unfolding check_new_message [OF assms(1-3)] by simp
qed

lemma misleading_fails: "neverConfirms (providers misleading)"
  by (simp add: neverConfirms_def misleading_def confirms_def nobodyAnswers_def)

lemma keep_sample: "keepAddressLines sampleAddress \<noteq> []"
  by code_simp

lemma misleading_answers: "alwaysAnswers misleading"
  using keep_sample by (simp add: alwaysAnswers_def misleading_def)

lemma initial_noneVerified: "noneVerified (initial autoSend)"
  by (simp add: noneVerified_def initial_def)

lemma firstHalf_facts:
  "\<not> length firstHalf < 5" "cleanMessageText firstHalf = firstHalf" "\<not> length firstHalf < 20"
  "hasSignal firstHalf" "escalationFor firstHalf = escalation [''4k3Dyjzvzp'', ''8eMZWUXbBC'']"
  by code_simp+

lemma otherToken_facts:
  "\<not> length otherToken < 5" "cleanMessageText otherToken = otherToken" "\<not> length otherToken < 20"
  "hasSignal otherToken"
  by code_simp+

lemma after_firstHalf:
  "attempts firstHalf 3 3 (initial False)
     (checkForSolanaAddresses misleading 1000 ''g1'' (Some firstHalf)
        \<lparr>node = 1, ancestorId = Some ''m1''\<rparr> (initial False)) \<and>
   noneVerified (checkForSolanaAddresses misleading 1000 ''g1'' (Some firstHalf)
        \<lparr>node = 1, ancestorId = Some ''m1''\<rparr> (initial False)) \<and>
   processedMessageIds (checkForSolanaAddresses misleading 1000 ''g1'' (Some firstHalf)
        \<lparr>node = 1, ancestorId = Some ''m1''\<rparr> (initial False)) = {''m1''} \<and>
   RECENT_MESSAGES_BUFFER (checkForSolanaAddresses misleading 1000 ''g1'' (Some firstHalf)
        \<lparr>node = 1, ancestorId = Some ''m1''\<rparr> (initial False)) =
     [\<lparr>text = firstHalf, element = \<lparr>node = 1, ancestorId = Some ''m1''\<rparr>, timestamp = 1000\<rparr>]"
proof -
  have ne: "cleanMessageText firstHalf \<noteq> []"
    using firstHalf_facts(1,2) by auto
  have id: "getMessageId ''g1'' \<lparr>node = 1, ancestorId = Some ''m1''\<rparr> \<notin>
      processedMessageIds (initial False)"
    by (simp add: initial_def)
  have long: "\<not> length (cleanMessageText firstHalf) < 20"
    and sig: "hasSignal (cleanMessageText firstHalf)"
    using firstHalf_facts by simp_all
  have old: "\<forall>m \<in> set (RECENT_MESSAGES_BUFFER (initial False)).
      BUFFER_TIME_WINDOW_MS < 1000 - timestamp m"
    by (simp add: initial_def)
  from check_all_fail [OF firstHalf_facts(1) ne id long sig misleading_answers misleading_fails
      initial_noneVerified old]
  show ?thesis
    by (simp add: firstHalf_facts(2) getMessageId_def initial_def)
qed

lemma attempts_log:
  assumes "attempts t 3 j s s'"
  shows "asked s' = asked s @
      [reconstructionRequest (aiPrompt s) t,
       reconstructionRequest (aiPrompt s @ escalated t 1) t,
       reconstructionRequest (aiPrompt s @ escalated t 2) t]"
proof -
  have "[0..<3] = [0, 1, 2]"
    by (simp add: upt_rec)
  with assms show ?thesis
    by (simp add: attempts_def escalated_0)
qed

text \<open>
  C6. The fallback asks the service at most 3 times for one message and adds an
  escalation sentence to the prompt after each failed attempt, but the prompt is one
  variable of the whole script and is never set back. Take a service that always
  proposes an address and providers that never confirm one. When the message
  \<^verbatim>\<open>mint 9WzDXwBbmkg8ZTbNMqUxvQRAyrZzDs pump\<close> arrives alone, its three requests carry
  the initial prompt and then its own escalations. When the message
  \<^verbatim>\<open>CA: 4k3Dyjzvzp8eMZWUXbBCjEv\<close> arrived 59 seconds before it, the very same first
  request carries the initial prompt followed by three escalation sentences that name
  the fragments \<^verbatim>\<open>4k3Dyjzvzp\<close> and \<^verbatim>\<open>8eMZWUXbBC\<close> of that earlier message: processing one
  message has changed the prompt used for another.
\<close>

theorem prompt_shared_across_messages:
  "asked (run otherAlone (initial False)) =
     [reconstructionRequest initialPrompt otherToken,
      reconstructionRequest (initialPrompt @ escalated otherToken 1) otherToken,
      reconstructionRequest (initialPrompt @ escalated otherToken 2) otherToken] \<and>
   asked (run firstThenOther (initial False)) =
     [reconstructionRequest initialPrompt firstHalf,
      reconstructionRequest (initialPrompt @ escalated firstHalf 1) firstHalf,
      reconstructionRequest (initialPrompt @ escalated firstHalf 2) firstHalf,
      reconstructionRequest (initialPrompt @ escalated firstHalf 3) otherToken,
      reconstructionRequest (initialPrompt @ escalated firstHalf 3 @ escalated otherToken 1) otherToken,
      reconstructionRequest (initialPrompt @ escalated firstHalf 3 @ escalated otherToken 2) otherToken] \<and>
   escalationFor firstHalf = escalation [''4k3Dyjzvzp'', ''8eMZWUXbBC''] \<and>
   userContent (asked (run firstThenOther (initial False)) ! 3) =
     userContent (asked (run otherAlone (initial False)) ! 0) \<and>
   systemPrompt (asked (run otherAlone (initial False)) ! 0) = initialPrompt \<and>
   systemPrompt (asked (run firstThenOther (initial False)) ! 3) \<noteq> initialPrompt \<and>
   aiPrompt (run firstThenOther (initial False)) \<noteq> aiPrompt (run otherAlone (initial False))"
proof -
  let ?el1 = "\<lparr>node = 1, ancestorId = Some ''m1''\<rparr>"
  let ?el2 = "\<lparr>node = 2, ancestorId = Some ''m2''\<rparr>"
  let ?s1 = "checkForSolanaAddresses misleading 1000 ''g1'' (Some firstHalf) ?el1 (initial False)"
  let ?s2 = "checkForSolanaAddresses misleading 60000 ''g2'' (Some otherToken) ?el2 ?s1"
  let ?alone = "checkForSolanaAddresses misleading 60000 ''g2'' (Some otherToken) ?el2 (initial False)"
  have r2: "run firstThenOther (initial False) = ?s2"
    by (simp add: run_def firstThenOther_def)
  have ra: "run otherAlone (initial False) = ?alone"
    by (simp add: run_def otherAlone_def)
  from after_firstHalf have a1: "attempts firstHalf 3 3 (initial False) ?s1"
    and nv1: "noneVerified ?s1" and id1: "processedMessageIds ?s1 = {''m1''}"
    and b1: "RECENT_MESSAGES_BUFFER ?s1 = [\<lparr>text = firstHalf, element = ?el1, timestamp = 1000\<rparr>]"
    by simp_all
  have ne: "cleanMessageText otherToken \<noteq> []"
    using otherToken_facts(1,2) by auto
  have long: "\<not> length (cleanMessageText otherToken) < 20"
    and sig: "hasSignal (cleanMessageText otherToken)"
    using otherToken_facts by simp_all
  have new2: "getMessageId ''g2'' ?el2 \<notin> processedMessageIds ?s1"
    unfolding id1 by (simp add: getMessageId_def)
  have old2: "\<forall>m \<in> set (RECENT_MESSAGES_BUFFER ?s1). BUFFER_TIME_WINDOW_MS < 60000 - timestamp m"
    unfolding b1 by (simp add: BUFFER_TIME_WINDOW_MS_def)
  from check_all_fail [OF otherToken_facts(1) ne new2 long sig misleading_answers misleading_fails nv1
      old2]
  have a2: "attempts otherToken 3 3 ?s1 ?s2"
    by (simp add: otherToken_facts(2))
  have newa: "getMessageId ''g2'' ?el2 \<notin> processedMessageIds (initial False)"
    by (simp add: initial_def)
  have olda: "\<forall>m \<in> set (RECENT_MESSAGES_BUFFER (initial False)).
      BUFFER_TIME_WINDOW_MS < 60000 - timestamp m"
    by (simp add: initial_def)
  from check_all_fail [OF otherToken_facts(1) ne newa long sig misleading_answers misleading_fails
      initial_noneVerified olda]
  have aa: "attempts otherToken 3 3 (initial False) ?alone"
    by (simp add: otherToken_facts(2))
  have i: "asked (initial False) = []" "aiPrompt (initial False) = initialPrompt"
    by (simp_all add: initial_def)
  from a1 have p1: "aiPrompt ?s1 = initialPrompt @ escalated firstHalf 3"
    by (simp add: attempts_def i)
  from a2 have "aiPrompt ?s2 = aiPrompt ?s1 @ escalated otherToken 3"
    unfolding attempts_def by (rule conjunct2)
  then have p2: "aiPrompt ?s2 = initialPrompt @ escalated firstHalf 3 @ escalated otherToken 3"
    unfolding p1 by simp
  from aa have pa: "aiPrompt ?alone = initialPrompt @ escalated otherToken 3"
    by (simp add: attempts_def i)
  have l1: "asked ?s1 =
     [reconstructionRequest initialPrompt firstHalf,
      reconstructionRequest (initialPrompt @ escalated firstHalf 1) firstHalf,
      reconstructionRequest (initialPrompt @ escalated firstHalf 2) firstHalf]"
    using attempts_log [OF a1] by (simp add: i)
  have l2: "asked ?s2 =
     [reconstructionRequest initialPrompt firstHalf,
      reconstructionRequest (initialPrompt @ escalated firstHalf 1) firstHalf,
      reconstructionRequest (initialPrompt @ escalated firstHalf 2) firstHalf,
      reconstructionRequest (initialPrompt @ escalated firstHalf 3) otherToken,
      reconstructionRequest (initialPrompt @ escalated firstHalf 3 @ escalated otherToken 1) otherToken,
      reconstructionRequest (initialPrompt @ escalated firstHalf 3 @ escalated otherToken 2) otherToken]"
    using attempts_log [OF a2] unfolding l1 p1 by simp
  have la: "asked ?alone =
     [reconstructionRequest initialPrompt otherToken,
      reconstructionRequest (initialPrompt @ escalated otherToken 1) otherToken,
      reconstructionRequest (initialPrompt @ escalated otherToken 2) otherToken]"
    using attempts_log [OF aa] by (simp add: i)
  have "escalation [''4k3Dyjzvzp'', ''8eMZWUXbBC''] \<noteq> []"
    by (simp add: escalation_def)
  then have ne3: "escalated firstHalf 3 \<noteq> []"
    by (simp add: escalated_def numeral_3_eq_3 firstHalf_facts(5))
  have 4: "userContent (asked ?s2 ! 3) = userContent (asked ?alone ! 0)"
    unfolding l2 la by (simp add: reconstructionRequest_def)
  have 5: "systemPrompt (asked ?alone ! 0) = initialPrompt"
    unfolding la by (simp add: reconstructionRequest_def)
  have 6: "systemPrompt (asked ?s2 ! 3) \<noteq> initialPrompt"
    unfolding l2 using ne3 by (simp add: reconstructionRequest_def)
  have 7: "aiPrompt ?s2 \<noteq> aiPrompt ?alone"
    unfolding p2 pa using ne3 by simp
  from l2 la firstHalf_facts(5) 4 5 6 7 show ?thesis
    unfolding r2 ra by blast
qed

section \<open>Properties of the fragment and suffix combination\<close>

lemma processEach_processed:
  "processed (snd (processEach net t el ai as found s)) =
     processed s @
       map (\<lambda>a. \<lparr>argAddress = a, argMessageText = t, argElement = el, argIsFromAI = ai\<rparr>) as"
proof (induction as arbitrary: found s)
  case Nil
  then show ?case by simp
next
  case (Cons a as)
  obtain res s1 where p: "processAddress net a t el ai s = (res, s1)"
    by (cases "processAddress net a t el ai s")
  then have "processed s1 =
      processed s @ [\<lparr>argAddress = a, argMessageText = t, argElement = el, argIsFromAI = ai\<rparr>]"
    using processAddress_processed [of net a t el ai s] by simp
  with p Cons.IH [of "found \<or> isVerified res" s1] show ?case
    by simp
qed

lemma tryReconstructions_grows:
  "\<exists>rest. processed (snd (tryReconstructions net t el as s)) = processed s @ rest"
proof (induction as arbitrary: s)
  case Nil
  then show ?case by simp
next
  case (Cons a as)
  let ?address = "if includesText ''pump'' t \<and> \<not> endsWith ''pump'' a then a @ ''pump'' else a"
  obtain res s1 where p: "processAddress net ?address t el True s = (res, s1)"
    by (cases "processAddress net ?address t el True s")
  then have 1: "processed s1 = processed s @
      [\<lparr>argAddress = ?address, argMessageText = t, argElement = el, argIsFromAI = True\<rparr>]"
    using processAddress_processed [of net ?address t el True s] by simp
  from Cons.IH [of s1] obtain rest
    where 2: "processed (snd (tryReconstructions net t el as s1)) = processed s1 @ rest"
    by (elim exE)
  show ?case
  proof (cases "isVerified res")
    case True
    with p 1 show ?thesis
      by (simp add: Let_def)
  next
    case False
    with p 1 2 show ?thesis
      by (simp add: Let_def)
  qed
qed

lemma reconstructWithAI_grows:
  "\<exists>rest. processed (reconstructWithAI W t el n s) = processed s @ rest"
proof (induction n arbitrary: s)
  case 0
  then show ?case by simp
next
  case (Suc n)
  let ?s1 = "s\<lparr>asked := asked s @ [reconstructionRequest (aiPrompt s) t]\<rparr>"
  let ?answers = "case assistant W (length (asked s)) (reconstructionRequest (aiPrompt s) t) of
                          None \<Rightarrow> [] | Some content \<Rightarrow> keepAddressLines content"
  let ?s2 = "snd (tryReconstructions (providers W) t el ?answers ?s1)"
  let ?s3 = "?s2\<lparr>aiPrompt := aiPrompt s @ escalationFor t\<rparr>"
  from tryReconstructions_grows [of "providers W" t el ?answers ?s1] obtain r2
    where 2: "processed ?s2 = processed s @ r2"
    by auto
  from Suc.IH [of ?s3] obtain r3
    where "processed (reconstructWithAI W t el n ?s3) = processed ?s3 @ r3"
    by (elim exE)
  with 2 have 3: "processed (reconstructWithAI W t el n ?s3) = processed s @ (r2 @ r3)"
    by simp
  consider (short) "length t < 20"
    | (silent) "\<not> length t < 20" "?answers = []"
    | (found) "\<not> length t < 20" "?answers \<noteq> []"
        "fst (tryReconstructions (providers W) t el ?answers ?s1)"
    | (again) "\<not> length t < 20" "?answers \<noteq> []"
        "\<not> fst (tryReconstructions (providers W) t el ?answers ?s1)"
    by blast
  then show ?case
  proof cases
    case short
    then show ?thesis by (simp add: reconstruct_Suc)
  next
    case silent
    then show ?thesis by (simp add: reconstruct_Suc Let_def)
  next
    case found
    then have "reconstructWithAI W t el (Suc n) s = ?s2"
      by (simp add: reconstruct_Suc Let_def)
    with 2 show ?thesis by simp
  next
    case again
    then have "reconstructWithAI W t el (Suc n) s = reconstructWithAI W t el n ?s3"
      by (simp add: reconstruct_Suc Let_def)
    with 3 show ?thesis by simp
  qed
qed

lemma reconstructWithAI_unanswered:
  assumes "\<forall>n r. assistant W n r = None"
  shows "processed (reconstructWithAI W t el n s) = processed s"
proof (cases n)
  case 0
  then show ?thesis by simp
next
  case (Suc m)
  with assms show ?thesis
    by (simp add: reconstruct_Suc Let_def)
qed

lemma directMatches_processed:
  "processed (snd (processDirectMatches W c el s)) =
     processed s @
       map (\<lambda>a. \<lparr>argAddress = a, argMessageText = c, argElement = el, argIsFromAI = False\<rparr>)
         (matchAll solanaAddressRegex False c)"
  by (simp add: processDirectMatches_def processEach_processed)

text \<open>The state in which the combinations have been processed, one after the other.\<close>

lemma extract_gated:
  assumes "\<not> fst (processDirectMatches W c el s)" and "hasSignal c"
  shows "\<exists>rest. processed (extractAddresses W c el s) =
           processed (snd (processDirectMatches W c el s)) @
             map (\<lambda>a. \<lparr>argAddress = a, argMessageText = c, argElement = el, argIsFromAI = True\<rparr>)
               (partCombinations c) @ rest"
proof -
  obtain f1 s1 where a: "processDirectMatches W c el s = (f1, s1)"
    by (cases "processDirectMatches W c el s")
  with assms(1) have nf: "\<not> f1"
    by simp
  obtain f2 s2 where b: "processEach (providers W) c el True (partCombinations c) False s1 = (f2, s2)"
    by (cases "processEach (providers W) c el True (partCombinations c) False s1")
  then have 2: "processed s2 = processed s1 @
      map (\<lambda>a. \<lparr>argAddress = a, argMessageText = c, argElement = el, argIsFromAI = True\<rparr>)
        (partCombinations c)"
    using processEach_processed [of "providers W" c el True "partCombinations c" False s1] by simp
  from a b nf assms(2)
  have e: "extractAddresses W c el s = (if \<not> f2 then reconstructWithAI W c el 3 s2 else s2)"
    by (simp add: extractAddresses_def)
  show ?thesis
  proof (cases f2)
    case True
    with e 2 a show ?thesis by simp
  next
    case False
    from reconstructWithAI_grows [of W c el 3 s2] obtain rest
      where "processed (reconstructWithAI W c el 3 s2) = processed s2 @ rest"
      by (elim exE)
    with False e 2 a show ?thesis by simp
  qed
qed

lemma extract_skipped:
  assumes "fst (processDirectMatches W c el s) \<or> \<not> hasSignal c"
  shows "extractAddresses W c el s = snd (processDirectMatches W c el s)"
proof -
  obtain f1 s1 where a: "processDirectMatches W c el s = (f1, s1)"
    by (cases "processDirectMatches W c el s")
  with assms show ?thesis
    by (auto simp: extractAddresses_def)
qed

lemma extract_unanswered:
  assumes "\<forall>n r. assistant W n r = None"
    and "\<not> fst (processDirectMatches W c el s)" and "hasSignal c"
  shows "processed (extractAddresses W c el s) =
           processed (snd (processDirectMatches W c el s)) @
             map (\<lambda>a. \<lparr>argAddress = a, argMessageText = c, argElement = el, argIsFromAI = True\<rparr>)
               (partCombinations c)"
proof -
  obtain f1 s1 where a: "processDirectMatches W c el s = (f1, s1)"
    by (cases "processDirectMatches W c el s")
  with assms(2) have nf: "\<not> f1"
    by simp
  obtain f2 s2 where b: "processEach (providers W) c el True (partCombinations c) False s1 = (f2, s2)"
    by (cases "processEach (providers W) c el True (partCombinations c) False s1")
  then have 2: "processed s2 = processed s1 @
      map (\<lambda>a. \<lparr>argAddress = a, argMessageText = c, argElement = el, argIsFromAI = True\<rparr>)
        (partCombinations c)"
    using processEach_processed [of "providers W" c el True "partCombinations c" False s1] by simp
  from a b nf assms(3)
  have e: "extractAddresses W c el s = (if \<not> f2 then reconstructWithAI W c el 3 s2 else s2)"
    by (simp add: extractAddresses_def)
  from e 2 a show ?thesis
    by (simp add: reconstructWithAI_unanswered [OF assms(1)])
qed

lemma combination_listed:
  assumes "fragmentPart \<in> set (findPotentialAddressParts c)"
    and "partKind fragmentPart = fragment" and "\<not> isPumpEnding fragmentPart"
    and "suffixPart \<in> set (findPotentialAddressParts c)"
    and "isPumpEnding suffixPart \<or> partKind suffixPart = pump_suffix \<or>
         partKind suffixPart = msnjn_suffix"
    and "wellFormed (combineParts fragmentPart suffixPart)"
  shows "combineParts fragmentPart suffixPart \<in> set (partCombinations c)"
proof -
  from assms(1-3) have "fragmentPart \<in> set (fragmentsOf (findPotentialAddressParts c))"
    by (simp add: fragmentsOf_def)
  moreover from assms(4,5) have "suffixPart \<in> set (suffixesOf (findPotentialAddressParts c))"
    by (simp add: suffixesOf_def)
  moreover from assms(6) have "testAddressShape (combineParts fragmentPart suffixPart)"
    by (simp add: testAddressShape_wellFormed)
  ultimately show ?thesis
    unfolding partCombinations_def Let_def by auto
qed

lemma combineParts_rule:
  "combineParts fragmentPart suffixPart =
     (if \<exists>pre. partText fragmentPart = pre @ take 3 (partText suffixPart)
      then partText fragmentPart @ drop 3 (partText suffixPart)
      else partText fragmentPart @ partText suffixPart)"
  by (simp add: combineParts_def endsWith_iff)

text \<open>
  C7, as the specification words it: when the fragment's trailing characters overlap the
  suffix's leading characters, only the rest of the suffix is appended. In the message
  \<^verbatim>\<open>8xKq3ZmR7vTnW2pYcD5hF9aBcMSNJn MSNJnpump\<close> the fragment ends with \<^verbatim>\<open>MSNJn\<close> and the
  suffix \<^verbatim>\<open>MSNJnpump\<close> begins with it; appending only \<^verbatim>\<open>pump\<close> would give a well-formed
  string, but the one candidate processed is the fragment followed by the whole suffix.
  And every well-formed combination is emitted: in a message that also holds a complete
  address which a provider confirms, the fragment and the suffix combine into a
  well-formed string, and only the complete address is processed.
\<close>

theorem overlap_rule_counterexample:
  "map partText (fragmentsOf (findPotentialAddressParts overlapping)) =
     [''8xKq3ZmR7vTnW2pYcD5hF9aBc'' @ ''MSNJn''] \<and>
   map partText (suffixesOf (findPotentialAddressParts overlapping)) = [''MSNJn'' @ ''pump''] \<and>
   wellFormed (''8xKq3ZmR7vTnW2pYcD5hF9aBc'' @ ''MSNJn'' @ ''pump'') \<and>
   map argAddress (processed (extractAddresses silent overlapping someElement (initial False))) =
     [''8xKq3ZmR7vTnW2pYcD5hF9aBcMSNJn'' @ ''MSNJnpump''] \<and>
   partCombinations withAddress = [''8xKq3ZmR7vTnW2pYcD5hF9aBcdeMSN'' @ ''Jnpump''] \<and>
   wellFormed (''8xKq3ZmR7vTnW2pYcD5hF9aBcdeMSN'' @ ''Jnpump'') \<and>
   map argAddress (processed (extractAddresses confirming withAddress someElement (initial False))) =
     [sampleAddress]"
proof -
  have 1: "map partText (fragmentsOf (findPotentialAddressParts overlapping)) =
     [''8xKq3ZmR7vTnW2pYcD5hF9aBc'' @ ''MSNJn'']"
    by code_simp
  have 2: "map partText (suffixesOf (findPotentialAddressParts overlapping)) = [''MSNJn'' @ ''pump'']"
    by code_simp
  have 3: "testAddressShape (''8xKq3ZmR7vTnW2pYcD5hF9aBc'' @ ''MSNJn'' @ ''pump'')"
    by code_simp
  have d: "matchAll solanaAddressRegex False overlapping = []"
    by code_simp
  then have nf: "\<not> fst (processDirectMatches silent overlapping someElement (initial False))"
    by (simp add: processDirectMatches_def)
  have sig: "hasSignal overlapping"
    by code_simp
  have pc: "partCombinations overlapping = [''8xKq3ZmR7vTnW2pYcD5hF9aBcMSNJn'' @ ''MSNJnpump'']"
    by code_simp
  have q: "\<forall>n r. assistant silent n r = None"
    by (simp add: silent_def)
  have 4: "map argAddress (processed (extractAddresses silent overlapping someElement (initial False))) =
     [''8xKq3ZmR7vTnW2pYcD5hF9aBcMSNJn'' @ ''MSNJnpump'']"
    unfolding extract_unanswered [OF q nf sig] directMatches_processed d pc
    by (simp add: initial_def)
  have 5: "partCombinations withAddress = [''8xKq3ZmR7vTnW2pYcD5hF9aBcdeMSN'' @ ''Jnpump'']"
    by code_simp
  have 6: "testAddressShape (''8xKq3ZmR7vTnW2pYcD5hF9aBcdeMSN'' @ ''Jnpump'')"
    by code_simp
  have d': "matchAll solanaAddressRegex False withAddress = [sampleAddress]"
    by code_simp
  have v: "isVerified (fst (processAddress (providers confirming) sampleAddress withAddress
      someElement False (initial False)))"
    by code_simp
  have f: "fst (processDirectMatches confirming withAddress someElement (initial False))"
    unfolding processDirectMatches_def d' using v by (simp add: split_beta Let_def)
  have 7: "map argAddress (processed (extractAddresses confirming withAddress someElement
      (initial False))) = [sampleAddress]"
    unfolding extract_skipped [OF disjI1 [OF f]] directMatches_processed d'
    by (simp add: initial_def)
  from 1 2 3 4 5 6 7 show ?thesis
    unfolding testAddressShape_wellFormed by blast
qed

text \<open>
  C7, amended. The combinations are tried only when no direct match of the message was
  verified and the message carries a signal; otherwise nothing follows the direct
  matches. When they are tried: for every part of the message that is a fragment not
  ending in \<^verbatim>\<open>pump\<close>, and every part that is a suffix or ends in \<^verbatim>\<open>pump\<close>, the
  combination is the fragment followed by the suffix without its first three characters
  when the fragment ends with those three characters, and by the whole suffix otherwise;
  when it is well formed it is passed to \<^verbatim>\<open>processAddress\<close> with the message text,
  marked as reconstructed.
\<close>

theorem fragment_suffix_combination:
  "(\<not> fst (processDirectMatches W c el s) \<and> hasSignal c \<longrightarrow>
      (\<forall>fragmentPart \<in> set (findPotentialAddressParts c).
       \<forall>suffixPart \<in> set (findPotentialAddressParts c).
         partKind fragmentPart = fragment \<and> \<not> isPumpEnding fragmentPart \<and>
         (isPumpEnding suffixPart \<or> partKind suffixPart = pump_suffix \<or>
          partKind suffixPart = msnjn_suffix) \<longrightarrow>
         (let combined =
                (if \<exists>pre. partText fragmentPart = pre @ take 3 (partText suffixPart)
                 then partText fragmentPart @ drop 3 (partText suffixPart)
                 else partText fragmentPart @ partText suffixPart)
          in wellFormed combined \<longrightarrow>
               (\<exists>before after. processed (extractAddresses W c el s) =
                  processed s @ before @
                    \<lparr>argAddress = combined, argMessageText = c, argElement = el,
                      argIsFromAI = True\<rparr> # after)))) \<and>
   (fst (processDirectMatches W c el s) \<or> \<not> hasSignal c \<longrightarrow>
      extractAddresses W c el s = snd (processDirectMatches W c el s))"
proof (intro conjI impI ballI)
  fix fragmentPart suffixPart
  assume gate: "\<not> fst (processDirectMatches W c el s) \<and> hasSignal c"
    and fp: "fragmentPart \<in> set (findPotentialAddressParts c)"
    and sp: "suffixPart \<in> set (findPotentialAddressParts c)"
    and kinds: "partKind fragmentPart = fragment \<and> \<not> isPumpEnding fragmentPart \<and>
         (isPumpEnding suffixPart \<or> partKind suffixPart = pump_suffix \<or>
          partKind suffixPart = msnjn_suffix)"
  let ?call = "\<lambda>a. \<lparr>argAddress = a, argMessageText = c, argElement = el, argIsFromAI = True\<rparr>"
  let ?direct = "map (\<lambda>a. \<lparr>argAddress = a, argMessageText = c, argElement = el, argIsFromAI = False\<rparr>)
         (matchAll solanaAddressRegex False c)"
  have "wellFormed (combineParts fragmentPart suffixPart) \<longrightarrow>
      (\<exists>before after. processed (extractAddresses W c el s) =
         processed s @ before @ ?call (combineParts fragmentPart suffixPart) # after)"
  proof
    assume wf: "wellFormed (combineParts fragmentPart suffixPart)"
    from kinds have k: "partKind fragmentPart = fragment" "\<not> isPumpEnding fragmentPart"
      "isPumpEnding suffixPart \<or> partKind suffixPart = pump_suffix \<or>
       partKind suffixPart = msnjn_suffix"
      by simp_all
    from combination_listed [OF fp k(1,2) sp k(3) wf]
    obtain ys zs where l: "partCombinations c = ys @ combineParts fragmentPart suffixPart # zs"
      by (auto dest: split_list)
    from gate extract_gated [of W c el s] obtain rest
      where "processed (extractAddresses W c el s) =
         processed (snd (processDirectMatches W c el s)) @ map ?call (partCombinations c) @ rest"
      by auto
    then have "processed (extractAddresses W c el s) =
        processed s @ (?direct @ map ?call ys) @
          ?call (combineParts fragmentPart suffixPart) # (map ?call zs @ rest)"
      unfolding directMatches_processed l by simp
    then show "\<exists>before after. processed (extractAddresses W c el s) =
         processed s @ before @ ?call (combineParts fragmentPart suffixPart) # after"
      by blast
  qed
  then show "let combined =
                (if \<exists>pre. partText fragmentPart = pre @ take 3 (partText suffixPart)
                 then partText fragmentPart @ drop 3 (partText suffixPart)
                 else partText fragmentPart @ partText suffixPart)
          in wellFormed combined \<longrightarrow>
               (\<exists>before after. processed (extractAddresses W c el s) =
                  processed s @ before @
                    \<lparr>argAddress = combined, argMessageText = c, argElement = el,
                      argIsFromAI = True\<rparr> # after)"
    unfolding Let_def combineParts_rule [symmetric] .
next
  assume "fst (processDirectMatches W c el s) \<or> \<not> hasSignal c"
  then show "extractAddresses W c el s = snd (processDirectMatches W c el s)"
    by (rule extract_skipped)
qed

lemma threeShared_facts:
  "matchAll solanaAddressRegex False threeShared = []"
  "hasSignal threeShared"
  "\<lparr>partText = ''8xKq3ZmR7vTnW2pYcD5hF9aBcdeMSN'', partKind = fragment, isPumpEnding = False\<rparr>
     \<in> set (findPotentialAddressParts threeShared)"
  "\<lparr>partText = ''MSNJnpump'', partKind = msnjn_suffix, isPumpEnding = True\<rparr>
     \<in> set (findPotentialAddressParts threeShared)"
  "endsWith (take 3 ''MSNJnpump'') ''8xKq3ZmR7vTnW2pYcD5hF9aBcdeMSN''"
  "testAddressShape (''8xKq3ZmR7vTnW2pYcD5hF9aBcdeMSN'' @ ''Jnpump'')"
  by code_simp+

theorem fragment_suffix_combination_witness:
  "\<not> fst (processDirectMatches silent threeShared someElement (initial False)) \<and>
   hasSignal threeShared \<and>
   \<lparr>partText = ''8xKq3ZmR7vTnW2pYcD5hF9aBcdeMSN'', partKind = fragment, isPumpEnding = False\<rparr>
     \<in> set (findPotentialAddressParts threeShared) \<and>
   \<lparr>partText = ''MSNJnpump'', partKind = msnjn_suffix, isPumpEnding = True\<rparr>
     \<in> set (findPotentialAddressParts threeShared) \<and>
   wellFormed (''8xKq3ZmR7vTnW2pYcD5hF9aBcdeMSN'' @ ''Jnpump'') \<and>
   (\<exists>before after.
      processed (extractAddresses silent threeShared someElement (initial False)) =
        before @ \<lparr>argAddress = ''8xKq3ZmR7vTnW2pYcD5hF9aBcdeMSN'' @ ''Jnpump'',
                   argMessageText = threeShared, argElement = someElement,
                   argIsFromAI = True\<rparr> # after)"
proof -
  let ?f = "\<lparr>partText = ''8xKq3ZmR7vTnW2pYcD5hF9aBcdeMSN'', partKind = fragment, isPumpEnding = False\<rparr>"
  let ?x = "\<lparr>partText = ''MSNJnpump'', partKind = msnjn_suffix, isPumpEnding = True\<rparr>"
  have nf: "\<not> fst (processDirectMatches silent threeShared someElement (initial False))"
    by (simp add: processDirectMatches_def threeShared_facts(1))
  have wf: "wellFormed (''8xKq3ZmR7vTnW2pYcD5hF9aBcdeMSN'' @ ''Jnpump'')"
    using threeShared_facts(6) by (simp only: testAddressShape_wellFormed)
  have ov: "\<exists>pre. partText ?f = pre @ take 3 (partText ?x)"
    using threeShared_facts(5) by (simp only: endsWith_iff part.simps)
  have p: "processed (initial False) = []"
    by (simp add: initial_def)
  from fragment_suffix_combination [of silent threeShared someElement "initial False"]
    nf threeShared_facts(2)
  have "\<forall>fragmentPart \<in> set (findPotentialAddressParts threeShared).
       \<forall>suffixPart \<in> set (findPotentialAddressParts threeShared).
         partKind fragmentPart = fragment \<and> \<not> isPumpEnding fragmentPart \<and>
         (isPumpEnding suffixPart \<or> partKind suffixPart = pump_suffix \<or>
          partKind suffixPart = msnjn_suffix) \<longrightarrow>
         (let combined =
                (if \<exists>pre. partText fragmentPart = pre @ take 3 (partText suffixPart)
                 then partText fragmentPart @ drop 3 (partText suffixPart)
                 else partText fragmentPart @ partText suffixPart)
          in wellFormed combined \<longrightarrow>
               (\<exists>before after.
                  processed (extractAddresses silent threeShared someElement (initial False)) =
                  processed (initial False) @ before @
                    \<lparr>argAddress = combined, argMessageText = threeShared, argElement = someElement,
                      argIsFromAI = True\<rparr> # after))"
    by blast
  from bspec [OF bspec [OF this threeShared_facts(3)] threeShared_facts(4)]
  have "let combined =
                (if \<exists>pre. partText ?f = pre @ take 3 (partText ?x)
                 then partText ?f @ drop 3 (partText ?x)
                 else partText ?f @ partText ?x)
          in wellFormed combined \<longrightarrow>
               (\<exists>before after.
                  processed (extractAddresses silent threeShared someElement (initial False)) =
                  processed (initial False) @ before @
                    \<lparr>argAddress = combined, argMessageText = threeShared, argElement = someElement,
                      argIsFromAI = True\<rparr> # after)"
    by simp
  then have "wellFormed (partText ?f @ drop 3 (partText ?x)) \<longrightarrow>
               (\<exists>before after.
                  processed (extractAddresses silent threeShared someElement (initial False)) =
                  processed (initial False) @ before @
                    \<lparr>argAddress = partText ?f @ drop 3 (partText ?x), argMessageText = threeShared,
                      argElement = someElement, argIsFromAI = True\<rparr> # after)"
    unfolding Let_def if_P [OF ov] .
  with wf have "\<exists>before after.
      processed (extractAddresses silent threeShared someElement (initial False)) =
        before @ \<lparr>argAddress = ''8xKq3ZmR7vTnW2pYcD5hF9aBcdeMSN'' @ ''Jnpump'',
                   argMessageText = threeShared, argElement = someElement,
                   argIsFromAI = True\<rparr> # after"
    by (simp add: p)
  with nf threeShared_facts(2,3,4) wf show ?thesis
    by blast
qed

end
